theory Spec2Isabelle
  imports Complex_Main "HOL-Library.Word" "HOL-Library.Sublist" "HOL-Library.Signed_Division"
begin

text \<open>
  A shallow embedding of the extraction, classification and aggregation code of
  \<open>src/main.cpp\<close>: \<open>ExtractJerryPurchases\<close> (lines 161-217) and the aggregation part
  of \<open>main\<close> (lines 313-380). File selection, reading and output formatting are not
  modelled.
\<close>

section \<open>Data model of \<open>src/main.cpp\<close>\<close>

text \<open>
  \<open>enum class JerryType\<close> (lines 19-26) and \<open>struct TalismanPurchase\<close> (lines 31-38).
  The C++ \<open>int\<close> is a 32-bit and \<open>long long\<close> a 64-bit two's complement integer; both are
  modelled as machine words that are read with \<open>sint\<close>. Arithmetic on words wraps around,
  which is what the target hardware does where the C++ standard leaves signed overflow
  undefined.
\<close>

datatype JerryType = GREEN | BLUE | PURPLE | GOLDEN | UNKNOWN

type_synonym c_int = "32 word"
type_synonym long_long = "64 word"

record TalismanPurchase =
  type :: JerryType
  recombobulated :: bool
  cost :: long_long

section \<open>Aggregation in \<open>main\<close> (lines 313-380)\<close>

text \<open>The nine local accumulators declared at lines 314-322.\<close>

record Counters =
  totalCost :: long_long
  greenCount :: c_int
  recomGreenCount :: c_int
  blueCount :: c_int
  recomBlueCount :: c_int
  purpleCount :: c_int
  recomPurpleCount :: c_int
  goldenCount :: c_int
  recomGoldenCount :: c_int

definition counters0 :: Counters where
  "counters0 = \<lparr>totalCost = 0, greenCount = 0, recomGreenCount = 0, blueCount = 0,
     recomBlueCount = 0, purpleCount = 0, recomPurpleCount = 0, goldenCount = 0,
     recomGoldenCount = 0\<rparr>"

text \<open>The body of the range-for loop, lines 326-356: the cost is always added, then the
  \<open>switch\<close> on the type picks one of eight counters; \<open>default\<close> does nothing.\<close>

definition count_purchase :: "Counters \<Rightarrow> TalismanPurchase \<Rightarrow> Counters" where
  "count_purchase c0 purchase =
     (let c = c0\<lparr>totalCost := totalCost c0 + cost purchase\<rparr> in
      case type purchase of
        GREEN \<Rightarrow> (if recombobulated purchase
                  then c\<lparr>recomGreenCount := recomGreenCount c + 1\<rparr>
                  else c\<lparr>greenCount := greenCount c + 1\<rparr>)
      | BLUE \<Rightarrow> (if recombobulated purchase
                  then c\<lparr>recomBlueCount := recomBlueCount c + 1\<rparr>
                  else c\<lparr>blueCount := blueCount c + 1\<rparr>)
      | PURPLE \<Rightarrow> (if recombobulated purchase
                  then c\<lparr>recomPurpleCount := recomPurpleCount c + 1\<rparr>
                  else c\<lparr>purpleCount := purpleCount c + 1\<rparr>)
      | GOLDEN \<Rightarrow> (if recombobulated purchase
                  then c\<lparr>recomGoldenCount := recomGoldenCount c + 1\<rparr>
                  else c\<lparr>goldenCount := goldenCount c + 1\<rparr>)
      | UNKNOWN \<Rightarrow> c)"

text \<open>The loop of line 324 over \<open>allPurchases\<close>, started from the zeroed accumulators.\<close>

definition count_all :: "TalismanPurchase list \<Rightarrow> Counters" where
  "count_all allPurchases = foldl count_purchase counters0 allPurchases"

text \<open>Lines 360-369: the conversion into green talismans, one \<open>+=\<close> after the other.\<close>

definition green_equivalent :: "Counters \<Rightarrow> c_int" where
  "green_equivalent c =
     (let t = greenCount c + recomGreenCount c;
          t = t + blueCount c * 5;
          t = t + recomBlueCount c * 5;
          t = t + purpleCount c * 25;
          t = t + recomPurpleCount c * 25;
          t = t + goldenCount c * 125;
          t = t + recomGoldenCount c * 125
      in t)"

text \<open>Lines 372-373. The sum of the four \<open>int\<close> counters is converted to \<open>long long\<close>
  (sign extension, \<open>scast\<close>) for the multiplication with the \<open>long long\<close> price.\<close>

definition adjusted_cost :: "Counters \<Rightarrow> long_long \<Rightarrow> long_long" where
  "adjusted_cost c recombobulatorPrice =
     totalCost c -
       scast (recomGreenCount c + recomBlueCount c + recomPurpleCount c + recomGoldenCount c)
         * recombobulatorPrice"

section \<open>The average price: \<open>double\<close> arithmetic (lines 376-380)\<close>

text \<open>
  Line 379 converts \<open>adjustedCost\<close> to \<open>double\<close>, divides by the \<open>int\<close> (converted to
  \<open>double\<close>) and converts the quotient back to \<open>long long\<close>. A finite \<open>double\<close> is
  modelled by the rational number it denotes. \<open>round_double\<close> is IEEE 754 binary64
  rounding to nearest, ties to even: a number \<open>x\<close> with \<open>2^e \<le> |x| < 2^(e+1)\<close> is rounded
  to a multiple of \<open>2^(e-52)\<close> (53 significant bits; below \<open>2^-1022\<close> the spacing stays
  \<open>2^-1074\<close>). Overflow to infinity cannot happen for the magnitudes of this program
  (at most \<open>2^63\<close>) and is not modelled.
\<close>

definition round_half_even :: "rat \<Rightarrow> int" where
  "round_half_even x =
     (let f = \<lfloor>x\<rfloor>; d = x - of_int f
      in if d < 1 / 2 then f else if 1 / 2 < d then f + 1 else if even f then f else f + 1)"

text \<open>The number of binary digits of a positive integer.\<close>

function bit_length :: "int \<Rightarrow> nat" where
  "bit_length n = (if n \<le> 0 then 0 else Suc (bit_length (n div 2)))"
  by pat_completeness auto
termination
  by (relation "measure nat") auto

declare bit_length.simps [simp del]

text \<open>\<open>ilog2 x\<close> is the exponent \<open>e\<close> with \<open>2^e \<le> x < 2^(e+1)\<close>, for \<open>x > 0\<close>.\<close>

definition ilog2 :: "rat \<Rightarrow> int" where
  "ilog2 x =
     (let (n, d) = quotient_of x;
          k = int (bit_length n) - int (bit_length d)
      in if 2 powi k \<le> x then k else k - 1)"

definition round_double :: "rat \<Rightarrow> rat" where
  "round_double x =
     (if x = 0 then 0
      else let u = 2 powi (max (ilog2 \<bar>x\<bar>) (- 1022) - 52)
           in of_int (round_half_even (x / u)) * u)"

text \<open>\<open>static_cast<double>\<close> of a \<open>long long\<close> rounds; of an \<open>int\<close> it is exact, the
  rounding is applied all the same.\<close>

definition double_of_long_long :: "long_long \<Rightarrow> rat" where
  "double_of_long_long a = round_double (of_int (sint a))"

definition double_of_int :: "c_int \<Rightarrow> rat" where
  "double_of_int b = round_double (of_int (sint b))"

definition double_div :: "rat \<Rightarrow> rat \<Rightarrow> rat" where
  "double_div x y = round_double (x / y)"

text \<open>\<open>static_cast<long long>\<close> of a \<open>double\<close> discards the fractional part (truncation
  towards zero); the behaviour is undefined when the truncated value is not a
  \<open>long long\<close>, which is the result \<open>None\<close>.\<close>

definition truncate_rat :: "rat \<Rightarrow> int" where
  "truncate_rat x = (if 0 \<le> x then \<lfloor>x\<rfloor> else \<lceil>x\<rceil>)"

definition long_long_of_double :: "rat \<Rightarrow> long_long option" where
  "long_long_of_double x =
     (let t = truncate_rat x
      in if - (2 ^ 63) \<le> t \<and> t \<le> 2 ^ 63 - 1 then Some (word_of_int t) else None)"

text \<open>Lines 376-380: initialised to 0, assigned only under the guard of line 377.\<close>

definition avg_price_per_green :: "long_long \<Rightarrow> c_int \<Rightarrow> long_long option" where
  "avg_price_per_green adjustedCost totalGreenEquivalent =
     (if 0 < sint totalGreenEquivalent
      then long_long_of_double
             (double_div (double_of_long_long adjustedCost) (double_of_int totalGreenEquivalent))
      else Some 0)"

text \<open>The values \<open>main\<close> prints: the accumulators and the three derived numbers.\<close>

record Summary = Counters +
  totalGreenEquivalent :: c_int
  adjustedCost :: long_long
  avgPricePerGreen :: "long_long option"

definition aggregate :: "TalismanPurchase list \<Rightarrow> long_long \<Rightarrow> Summary" where
  "aggregate allPurchases recombobulatorPrice =
     (let c = count_all allPurchases;
          t = green_equivalent c;
          a = adjusted_cost c recombobulatorPrice
      in \<lparr>totalCost = totalCost c,
          greenCount = greenCount c, recomGreenCount = recomGreenCount c,
          blueCount = blueCount c, recomBlueCount = recomBlueCount c,
          purpleCount = purpleCount c, recomPurpleCount = recomPurpleCount c,
          goldenCount = goldenCount c, recomGoldenCount = recomGoldenCount c,
          totalGreenEquivalent = t, adjustedCost = a,
          avgPricePerGreen = avg_price_per_green a t\<rparr>)"

section \<open>The regular expression of \<open>ExtractJerryPurchases\<close> (lines 166-170)\<close>

text \<open>
  \<open>std::regex\<close> with the default ECMAScript grammar is a backtracking matcher: of all
  ways to match at a position it reports the one that comes first when every choice is
  tried in priority order (alternatives left to right, a greedy \<open>+\<close> longest first, a lazy
  \<open>+?\<close> shortest first). \<open>rmatch\<close> returns all ways to match in that order, so its head is
  the reported match. Only the constructs of \<open>logPattarn\<close> are modelled; \<open>+\<close> is applied to
  single-character atoms only, as in the pattern. The atom \<open>.\<close> matches every character
  but the line terminators LF and CR; the bracket \<open>[0-9,]\<close> is written out. The model
  is the matching that the standard defines: an implementation that gives up on a long
  input with \<open>std::regex_error\<close> (complexity or stack limit) is outside it.
\<close>

datatype atom = AnyChar | OneOf string

fun atom_ok :: "atom \<Rightarrow> char \<Rightarrow> bool" where
  "atom_ok AnyChar c = (c \<noteq> CHR 0x0A \<and> c \<noteq> CHR 0x0D)"
| "atom_ok (OneOf cs) c = (c \<in> set cs)"

datatype re = Lit string | Atom atom | PlusG atom | PlusL atom
  | Alt re re | Seq re re | Grp nat re

text \<open>The remaining inputs after one or more characters accepted by the atom: longest
  run first for the greedy \<open>+\<close>, shortest first for the lazy \<open>+?\<close>.\<close>

fun plus_greedy :: "atom \<Rightarrow> string \<Rightarrow> string list" where
  "plus_greedy a [] = []"
| "plus_greedy a (c # cs) = (if atom_ok a c then plus_greedy a cs @ [cs] else [])"

fun plus_lazy :: "atom \<Rightarrow> string \<Rightarrow> string list" where
  "plus_lazy a [] = []"
| "plus_lazy a (c # cs) = (if atom_ok a c then cs # plus_lazy a cs else [])"

text \<open>A matcher state: the sub-matches recorded so far (index 0 is the whole match,
  filled in by \<open>regex_search\<close>) and the input that is left.\<close>

type_synonym mstate = "string list \<times> string"

fun rmatch :: "re \<Rightarrow> mstate \<Rightarrow> mstate list" where
  "rmatch (Lit l) (caps, s) = (if prefix l s then [(caps, drop (length l) s)] else [])"
| "rmatch (Atom a) (caps, s) =
     (case s of [] \<Rightarrow> [] | c # cs \<Rightarrow> if atom_ok a c then [(caps, cs)] else [])"
| "rmatch (PlusG a) (caps, s) = map (Pair caps) (plus_greedy a s)"
| "rmatch (PlusL a) (caps, s) = map (Pair caps) (plus_lazy a s)"
| "rmatch (Alt r1 r2) st = rmatch r1 st @ rmatch r2 st"
| "rmatch (Seq r1 r2) st = concat (map (rmatch r2) (rmatch r1 st))"
| "rmatch (Grp k r) (caps, s) =
     map (\<lambda>(caps', s'). (caps'[k := take (length s - length s') s], s'))
       (rmatch r (caps, s))"

text \<open>Line 167:
  \<^verbatim>\<open>You purchased .+(.)(Green|Blue|PurPle|Golden) Jerry (Talisman|Artifact) .+for .+?([0-9,]+) coins\<close>\<close>

definition logPattarn :: re where
  "logPattarn =
     Seq (Lit ''You purchased '')
    (Seq (PlusG AnyChar)
    (Seq (Grp 1 (Atom AnyChar))
    (Seq (Grp 2 (Alt (Lit ''Green'') (Alt (Lit ''Blue'') (Alt (Lit ''PurPle'') (Lit ''Golden'')))))
    (Seq (Lit '' Jerry '')
    (Seq (Grp 3 (Alt (Lit ''Talisman'') (Lit ''Artifact'')))
    (Seq (Lit '' '')
    (Seq (PlusG AnyChar)
    (Seq (Lit ''for '')
    (Seq (PlusL AnyChar)
    (Seq (Grp 4 (PlusG (OneOf ''0123456789,'')))
         (Lit '' coins'')))))))))))"

text \<open>\<open>std::regex_search\<close>: the match at the leftmost position that has one. The result
  is the number of characters before the match, the five sub-matches (the pattern has four
  groups) and the input after the match.\<close>

fun regex_search :: "re \<Rightarrow> string \<Rightarrow> (nat \<times> string list \<times> string) option" where
  "regex_search r s =
     (case rmatch r (replicate 5 [], s) of
        (caps, rest) # _ \<Rightarrow> Some (0, caps[0 := take (length s - length rest) s], rest)
      | [] \<Rightarrow>
         (case s of
            [] \<Rightarrow> None
          | _ # cs \<Rightarrow> map_option (\<lambda>(n, caps, rest). (Suc n, caps, rest)) (regex_search r cs)))"

declare regex_search.simps [simp del]

text \<open>\<open>std::smatch\<close>: where the match starts in the text and its sub-matches.\<close>

record smatch =
  position :: nat
  subs :: "string list"

subsection \<open>What a match of the pattern looks like\<close>

lemma set_plus_greedy:
  "set (plus_greedy a s) = {s'. \<exists>xs. xs \<noteq> [] \<and> (\<forall>x\<in>set xs. atom_ok a x) \<and> s = xs @ s'}"
proof (induction s)
  case Nil
  then show ?case by simp
next
  case (Cons c s)
  show ?case
  proof (cases "atom_ok a c")
    case True
    have "{s'. \<exists>xs. xs \<noteq> [] \<and> (\<forall>x\<in>set xs. atom_ok a x) \<and> c # s = xs @ s'} =
          insert s {s'. \<exists>xs. xs \<noteq> [] \<and> (\<forall>x\<in>set xs. atom_ok a x) \<and> s = xs @ s'}"
      (is "?L = insert s ?R")
    proof (intro set_eqI iffI)
      fix s' assume "s' \<in> ?L"
      then obtain xs where xs: "xs \<noteq> []" "\<forall>x\<in>set xs. atom_ok a x" "c # s = xs @ s'" by blast
      then obtain ys where ys: "xs = c # ys" by (cases xs) auto
      with xs show "s' \<in> insert s ?R" by (cases "ys = []") auto
    next
      fix s' assume "s' \<in> insert s ?R"
      then consider "s' = s" | xs where "xs \<noteq> []" "\<forall>x\<in>set xs. atom_ok a x" "s = xs @ s'"
        by blast
      then show "s' \<in> ?L"
      proof cases
        case 1
        with True have "[c] \<noteq> [] \<and> (\<forall>x\<in>set [c]. atom_ok a x) \<and> c # s = [c] @ s'" by simp
        then show ?thesis by blast
      next
        case 2
        with True have "c # xs \<noteq> [] \<and> (\<forall>x\<in>set (c # xs). atom_ok a x) \<and> c # s = (c # xs) @ s'"
          by simp
        then show ?thesis by blast
      qed
    qed
    with True Cons.IH show ?thesis by simp
  next
    case False
    have "\<And>xs s'. xs \<noteq> [] \<Longrightarrow> c # s = xs @ s' \<Longrightarrow> c \<in> set xs"
      by (case_tac xs) auto
    with False show ?thesis by auto
  qed
qed

lemma set_plus_lazy: "set (plus_lazy a s) = set (plus_greedy a s)"
  by (induction s) auto

lemma in_rmatch_Lit:
  "(c', s') \<in> set (rmatch (Lit l) (c, s)) \<longleftrightarrow> c' = c \<and> s = l @ s'"
  by (auto simp: prefix_def)

lemma in_rmatch_Atom:
  "(c', s') \<in> set (rmatch (Atom a) (c, s)) \<longleftrightarrow> c' = c \<and> (\<exists>x. atom_ok a x \<and> s = x # s')"
  by (auto split: list.splits)

lemma in_rmatch_PlusG:
  "(c', s') \<in> set (rmatch (PlusG a) (c, s)) \<longleftrightarrow>
     c' = c \<and> (\<exists>xs. xs \<noteq> [] \<and> (\<forall>x\<in>set xs. atom_ok a x) \<and> s = xs @ s')"
  by (auto simp: set_plus_greedy)

lemma in_rmatch_PlusL:
  "(c', s') \<in> set (rmatch (PlusL a) (c, s)) \<longleftrightarrow>
     c' = c \<and> (\<exists>xs. xs \<noteq> [] \<and> (\<forall>x\<in>set xs. atom_ok a x) \<and> s = xs @ s')"
  by (auto simp: set_plus_lazy set_plus_greedy)

lemma in_rmatch_Alt:
  "st' \<in> set (rmatch (Alt r1 r2) st) \<longleftrightarrow> st' \<in> set (rmatch r1 st) \<or> st' \<in> set (rmatch r2 st)"
  by simp

lemma in_rmatch_Seq:
  "st' \<in> set (rmatch (Seq r1 r2) st) \<longleftrightarrow> (\<exists>st1\<in>set (rmatch r1 st). st' \<in> set (rmatch r2 st1))"
  by auto

lemma in_rmatch_Grp:
  "(c', s') \<in> set (rmatch (Grp k r) (c, s)) \<longleftrightarrow>
     (\<exists>c0. (c0, s') \<in> set (rmatch r (c, s)) \<and> c' = c0[k := take (length s - length s') s])"
  by auto

lemma rmatch_suffix:
  "(caps', s') \<in> set (rmatch r (caps, s)) \<Longrightarrow> suffix s' s"
proof (induction r arbitrary: caps s caps' s')
  case (Seq r1 r2)
  from Seq.prems obtain c1 s1 where
    a: "(c1, s1) \<in> set (rmatch r1 (caps, s))" and b: "(caps', s') \<in> set (rmatch r2 (c1, s1))"
    by auto
  from Seq.IH(2)[OF b] Seq.IH(1)[OF a] show ?case by (rule suffix_order.trans)
qed (auto simp: in_rmatch_Lit in_rmatch_Atom in_rmatch_PlusG in_rmatch_PlusL in_rmatch_Grp
       in_rmatch_Alt
       suffix_def simp del: rmatch.simps)

lemma rmatch_logPattarn_shorter:
  assumes "(caps', s') \<in> set (rmatch logPattarn (caps, s))"
  shows "length s' < length s"
proof -
  obtain r where r: "logPattarn = Seq (Lit ''You purchased '') r"
    by (simp add: logPattarn_def)
  from assms[unfolded r in_rmatch_Seq] obtain c1 s1 where
    a: "(c1, s1) \<in> set (rmatch (Lit ''You purchased '') (caps, s))" and
    b: "(caps', s') \<in> set (rmatch r (c1, s1))" by auto
  from a have "s = ''You purchased '' @ s1" by (simp only: in_rmatch_Lit)
  then have "length s = 14 + length s1" by simp
  moreover from rmatch_suffix[OF b] have "length s' \<le> length s1"
    by (rule suffix_length_le)
  ultimately show ?thesis by simp
qed

lemma regex_search_SomeD:
  "regex_search r s = Some (n, caps, rest) \<Longrightarrow>
     n \<le> length s \<and>
     (\<exists>c ms. rmatch r (replicate 5 [], drop n s) = (c, rest) # ms \<and>
        caps = c[0 := take (length s - n - length rest) (drop n s)]) \<and>
     (\<forall>i<n. rmatch r (replicate 5 [], drop i s) = [])"
proof (induction s arbitrary: n caps rest)
  case Nil
  then show ?case by (auto simp: regex_search.simps[of r "[]"] split: list.splits)
next
  case (Cons a s)
  show ?case
  proof (cases "rmatch r (replicate 5 [], a # s)")
    case Nil
    with Cons.prems obtain n' where n: "n = Suc n'" and
      s: "regex_search r s = Some (n', caps, rest)"
      by (auto simp: regex_search.simps[of r "a # s"])
    from Cons.IH[OF s] Nil show ?thesis unfolding n
      by (auto simp: less_Suc_eq_0_disj)
  next
    case (Cons x xs)
    with Cons.prems show ?thesis
      by (cases x) (auto simp: regex_search.simps[of r "a # s"])
  qed
qed

lemma regex_search_NoneD:
  "regex_search r s = None \<Longrightarrow> i \<le> length s \<Longrightarrow> rmatch r (replicate 5 [], drop i s) = []"
proof (induction s arbitrary: i)
  case Nil
  then show ?case by (auto simp: regex_search.simps[of r "[]"] split: list.splits)
next
  case (Cons a s)
  from Cons.prems(1) have 0: "rmatch r (replicate 5 [], a # s) = []"
    and s: "regex_search r s = None"
    by (auto simp: regex_search.simps[of r "a # s"] split: list.splits)
  show ?case
  proof (cases i)
    case 0
    then show ?thesis using \<open>rmatch r (replicate 5 [], a # s) = []\<close> by simp
  next
    case (Suc j)
    then show ?thesis using Cons.IH[OF s, of j] Cons.prems(2) by simp
  qed
qed

lemma regex_search_logPattarn_shorter:
  assumes "regex_search logPattarn s = Some (n, caps, rest)"
  shows "length rest < length s - n"
proof -
  from regex_search_SomeD[OF assms] obtain c ms where
    "rmatch logPattarn (replicate 5 [], drop n s) = (c, rest) # ms" by blast
  then have "(c, rest) \<in> set (rmatch logPattarn (replicate 5 [], drop n s))" by simp
  from rmatch_logPattarn_shorter[OF this] show ?thesis by simp
qed

subsection \<open>\<open>std::sregex_iterator\<close> (lines 169-172)\<close>

text \<open>
  The iterator reports the leftmost match of the text, then the leftmost match of what
  follows that match, and so on until no match is left. A match of \<open>logPattarn\<close> is never
  empty, so the iterator's special step after an empty match is never taken.
  \<open>off\<close> is the number of characters of the text before \<open>s\<close>.
\<close>

function all_matches :: "nat \<Rightarrow> string \<Rightarrow> smatch list" where
  "all_matches off s =
     (case regex_search logPattarn s of
        None \<Rightarrow> []
      | Some (n, caps, rest) \<Rightarrow>
          \<lparr>position = off + n, subs = caps\<rparr> # all_matches (off + (length s - length rest)) rest)"
  by pat_completeness auto
termination
  by (relation "measure (\<lambda>(off, s). length s)")
     (auto dest: regex_search_logPattarn_shorter)


declare all_matches.simps [simp del]

section \<open>Turning a match into a purchase (lines 174-213)\<close>

text \<open>
  \<open>std::stoll\<close> (base 10) as the C++ standard defines it through \<open>strtoll\<close>: leading
  white space is skipped, an optional sign is read, then the longest run of decimal
  digits; what follows is ignored. Without a digit it throws \<open>std::invalid_argument\<close>,
  with a value outside \<open>long long\<close> it throws \<open>std::out_of_range\<close>.
\<close>

datatype stoll_error = invalid_argument | out_of_range

definition isspace :: "char \<Rightarrow> bool" where
  "isspace c = (c \<in> set [CHR 0x20, CHR 0x09, CHR 0x0A, CHR 0x0B, CHR 0x0C, CHR 0x0D])"

definition isdigit :: "char \<Rightarrow> bool" where
  "isdigit c = (c \<in> set ''0123456789'')"

definition digit_value :: "char \<Rightarrow> int" where
  "digit_value c = of_char c - 48"

definition digits_value :: "string \<Rightarrow> int" where
  "digits_value ds = foldl (\<lambda>acc c. 10 * acc + digit_value c) 0 ds"

definition stoll :: "string \<Rightarrow> stoll_error + long_long" where
  "stoll str =
     (let s = dropWhile isspace str;
          (neg, s) = (case s of
                        [] \<Rightarrow> (False, s)
                      | c # cs \<Rightarrow> if c = CHR ''-'' then (True, cs)
                                 else if c = CHR ''+'' then (False, cs) else (False, s));
          ds = takeWhile isdigit s
      in if ds = [] then Inl invalid_argument
         else let v = (if neg then - digits_value ds else digits_value ds)
              in if v < - (2 ^ 63) \<or> 2 ^ 63 - 1 < v then Inl out_of_range
                 else Inr (word_of_int v))"

text \<open>Line 182 (the erase-remove idiom deletes every comma) and line 183
  (\<open>costStr.erase(0, 1)\<close> deletes the first character, if there is one).\<close>

definition remove_commas :: "string \<Rightarrow> string" where
  "remove_commas costStr = filter (\<lambda>c. c \<noteq> CHR '','') costStr"

definition erase_0_1 :: "string \<Rightarrow> string" where
  "erase_0_1 costStr = drop 1 costStr"

text \<open>A line written to \<open>std::cerr\<close> by the handler of lines 189-193: the string that
  failed to parse and the exception.\<close>

record warning =
  row :: string
  what :: stoll_error

text \<open>Lines 182-193: the cost and what is written to \<open>std::cerr\<close>.\<close>

definition parse_cost :: "string \<Rightarrow> long_long \<times> warning list" where
  "parse_cost costTok =
     (let costStr = erase_0_1 (remove_commas costTok)
      in case stoll costStr of
           Inr v \<Rightarrow> (v, [])
         | Inl e \<Rightarrow> (0, [\<lparr>row = costStr, what = e\<rparr>]))"

text \<open>Lines 196-204.\<close>

definition jerry_type :: "string \<Rightarrow> JerryType" where
  "jerry_type color =
     (if color = ''Green'' then GREEN
      else if color = ''Blue'' then BLUE
      else if color = ''Purple'' then PURPLE
      else if color = ''Golden'' then GOLDEN
      else UNKNOWN)"

text \<open>Lines 207-210.\<close>

definition is_recombobulated :: "JerryType \<Rightarrow> string \<Rightarrow> bool" where
  "is_recombobulated t rarity =
     ((t = GREEN \<and> rarity = ''9'') \<or>
      (t = BLUE \<and> rarity = ''5'') \<or>
      (t = PURPLE \<and> rarity = ''6'') \<or>
      (t = GOLDEN \<and> rarity = ''d''))"

text \<open>Lines 177-212 for one match, given its sub-matches 1, 2 and 4.\<close>

definition classify :: "string \<times> string \<times> string \<Rightarrow> TalismanPurchase \<times> warning list" where
  "classify m =
     (case m of (rarity, color, costTok) \<Rightarrow>
        let (cost, warnings) = parse_cost costTok;
            t = jerry_type color
        in (\<lparr>type = t, recombobulated = is_recombobulated t rarity, cost = cost\<rparr>, warnings))"

text \<open>The loop of lines 172-214: matches with fewer than five sub-matches are skipped.\<close>

definition raw_matches :: "string \<Rightarrow> (string \<times> string \<times> string) list" where
  "raw_matches logContent =
     map (\<lambda>m. (subs m ! 1, subs m ! 2, subs m ! 4))
       (filter (\<lambda>m. 5 \<le> length (subs m)) (all_matches 0 logContent))"

definition ExtractJerryPurchases :: "string \<Rightarrow> TalismanPurchase list" where
  "ExtractJerryPurchases logContent = map (fst \<circ> classify) (raw_matches logContent)"

definition ExtractJerryPurchases_cerr :: "string \<Rightarrow> warning list" where
  "ExtractJerryPurchases_cerr logContent = concat (map (snd \<circ> classify) (raw_matches logContent))"

text \<open>Lines 291-311 of \<open>main\<close>: the purchases of all files that were read, in order; an
  empty file content is skipped. Then the aggregation.\<close>

definition all_purchases :: "string list \<Rightarrow> TalismanPurchase list" where
  "all_purchases contents =
     concat (map (\<lambda>content. if content \<noteq> [] then ExtractJerryPurchases content else [])
       contents)"

definition main_summary :: "string list \<Rightarrow> long_long \<Rightarrow> Summary" where
  "main_summary contents recombobulatorPrice =
     aggregate (all_purchases contents) recombobulatorPrice"

section \<open>Notions of the specification\<close>

text \<open>The decimal numeral of a natural number, without leading zeros.\<close>

fun decimal :: "nat \<Rightarrow> string" where
  "decimal n =
     (if n < 10 then [''0123456789'' ! n]
      else decimal (n div 10) @ [''0123456789'' ! (n mod 10)])"

declare decimal.simps [simp del]

text \<open>The cost as the sentences of the specification describe it: the separators are
  removed, then one leading character if it is not a digit, and the rest is parsed.\<close>

definition spec_cost :: "string \<Rightarrow> long_long" where
  "spec_cost costTok =
     (let s = remove_commas costTok;
          s = (case s of [] \<Rightarrow> s | c # cs \<Rightarrow> if isdigit c then s else cs)
      in case stoll s of Inr v \<Rightarrow> v | Inl e \<Rightarrow> 0)"

text \<open>The match that the matcher reports when it is started at position \<open>j\<close> of the
  text: its sub-matches and the position where it ends.\<close>

definition match_at :: "string \<Rightarrow> nat \<Rightarrow> (string list \<times> nat) option" where
  "match_at text j =
     (case rmatch logPattarn (replicate 5 [], drop j text) of
        [] \<Rightarrow> None
      | (c, rest) # _ \<Rightarrow>
          Some (c[0 := take (length text - j - length rest) (drop j text)],
                length text - length rest))"

text \<open>A character that no part of a pattern accepts.\<close>

fun rejects :: "re \<Rightarrow> char \<Rightarrow> bool" where
  "rejects (Lit l) x = (x \<notin> set l)"
| "rejects (Atom a) x = (\<not> atom_ok a x)"
| "rejects (PlusG a) x = (\<not> atom_ok a x)"
| "rejects (PlusL a) x = (\<not> atom_ok a x)"
| "rejects (Alt r1 r2) x = (rejects r1 x \<and> rejects r2 x)"
| "rejects (Seq r1 r2) x = (rejects r1 x \<and> rejects r2 x)"
| "rejects (Grp k r) x = rejects r x"

section \<open>Properties of the aggregation\<close>

lemma count_purchase_totalCost:
  "totalCost (count_purchase c p) = totalCost c + cost p"
  by (simp add: count_purchase_def Let_def split: JerryType.splits)

lemma foldl_count_totalCost:
  "totalCost (foldl count_purchase c ps) = totalCost c + sum_list (map cost ps)"
  by (induction ps arbitrary: c) (simp_all add: count_purchase_totalCost add.assoc)

lemma foldl_count_greenCount:
  "greenCount (foldl count_purchase c ps) =
     greenCount c + of_nat (length (filter (\<lambda>p. type p = GREEN \<and> \<not> recombobulated p) ps))"
  by (induction ps arbitrary: c)
     (simp_all add: count_purchase_def Let_def split: JerryType.splits)

lemma foldl_count_recomGreenCount:
  "recomGreenCount (foldl count_purchase c ps) =
     recomGreenCount c + of_nat (length (filter (\<lambda>p. type p = GREEN \<and> recombobulated p) ps))"
  by (induction ps arbitrary: c)
     (simp_all add: count_purchase_def Let_def split: JerryType.splits)

lemma foldl_count_blueCount:
  "blueCount (foldl count_purchase c ps) =
     blueCount c + of_nat (length (filter (\<lambda>p. type p = BLUE \<and> \<not> recombobulated p) ps))"
  by (induction ps arbitrary: c)
     (simp_all add: count_purchase_def Let_def split: JerryType.splits)

lemma foldl_count_recomBlueCount:
  "recomBlueCount (foldl count_purchase c ps) =
     recomBlueCount c + of_nat (length (filter (\<lambda>p. type p = BLUE \<and> recombobulated p) ps))"
  by (induction ps arbitrary: c)
     (simp_all add: count_purchase_def Let_def split: JerryType.splits)

lemma foldl_count_purpleCount:
  "purpleCount (foldl count_purchase c ps) =
     purpleCount c + of_nat (length (filter (\<lambda>p. type p = PURPLE \<and> \<not> recombobulated p) ps))"
  by (induction ps arbitrary: c)
     (simp_all add: count_purchase_def Let_def split: JerryType.splits)

lemma foldl_count_recomPurpleCount:
  "recomPurpleCount (foldl count_purchase c ps) =
     recomPurpleCount c + of_nat (length (filter (\<lambda>p. type p = PURPLE \<and> recombobulated p) ps))"
  by (induction ps arbitrary: c)
     (simp_all add: count_purchase_def Let_def split: JerryType.splits)

lemma foldl_count_goldenCount:
  "goldenCount (foldl count_purchase c ps) =
     goldenCount c + of_nat (length (filter (\<lambda>p. type p = GOLDEN \<and> \<not> recombobulated p) ps))"
  by (induction ps arbitrary: c)
     (simp_all add: count_purchase_def Let_def split: JerryType.splits)

lemma foldl_count_recomGoldenCount:
  "recomGoldenCount (foldl count_purchase c ps) =
     recomGoldenCount c + of_nat (length (filter (\<lambda>p. type p = GOLDEN \<and> recombobulated p) ps))"
  by (induction ps arbitrary: c)
     (simp_all add: count_purchase_def Let_def split: JerryType.splits)

lemmas foldl_count =
  foldl_count_totalCost foldl_count_greenCount foldl_count_recomGreenCount
  foldl_count_blueCount foldl_count_recomBlueCount foldl_count_purpleCount
  foldl_count_recomPurpleCount foldl_count_goldenCount foldl_count_recomGoldenCount

text \<open>The accumulators after the loop, as counts over the purchase list.\<close>

definition tally :: "JerryType \<Rightarrow> bool \<Rightarrow> TalismanPurchase list \<Rightarrow> nat" where
  "tally t e ps = length (filter (\<lambda>p. type p = t \<and> recombobulated p = e) ps)"

lemma count_all_fields:
  "totalCost (count_all ps) = sum_list (map cost ps)"
  "greenCount (count_all ps) = of_nat (tally GREEN False ps)"
  "recomGreenCount (count_all ps) = of_nat (tally GREEN True ps)"
  "blueCount (count_all ps) = of_nat (tally BLUE False ps)"
  "recomBlueCount (count_all ps) = of_nat (tally BLUE True ps)"
  "purpleCount (count_all ps) = of_nat (tally PURPLE False ps)"
  "recomPurpleCount (count_all ps) = of_nat (tally PURPLE True ps)"
  "goldenCount (count_all ps) = of_nat (tally GOLDEN False ps)"
  "recomGoldenCount (count_all ps) = of_nat (tally GOLDEN True ps)"
  by (simp_all add: count_all_def foldl_count counters0_def tally_def)

lemma tally_split:
  "length (filter (\<lambda>p. type p = t) ps) = tally t False ps + tally t True ps"
  unfolding tally_def by (induction ps) auto

lemma tally_append: "tally t e (xs @ ys) = tally t e xs + tally t e ys"
  by (simp add: tally_def)

lemma aggregate_fields:
  "totalCost (aggregate ps price) = totalCost (count_all ps)"
  "greenCount (aggregate ps price) = greenCount (count_all ps)"
  "recomGreenCount (aggregate ps price) = recomGreenCount (count_all ps)"
  "blueCount (aggregate ps price) = blueCount (count_all ps)"
  "recomBlueCount (aggregate ps price) = recomBlueCount (count_all ps)"
  "purpleCount (aggregate ps price) = purpleCount (count_all ps)"
  "recomPurpleCount (aggregate ps price) = recomPurpleCount (count_all ps)"
  "goldenCount (aggregate ps price) = goldenCount (count_all ps)"
  "recomGoldenCount (aggregate ps price) = recomGoldenCount (count_all ps)"
  "totalGreenEquivalent (aggregate ps price) = green_equivalent (count_all ps)"
  "adjustedCost (aggregate ps price) = adjusted_cost (count_all ps) price"
  "avgPricePerGreen (aggregate ps price) =
     avg_price_per_green (adjusted_cost (count_all ps) price) (green_equivalent (count_all ps))"
  by (simp_all add: aggregate_def Let_def)

lemma green_equivalent_tally:
  "green_equivalent (count_all ps) =
     of_nat (length (filter (\<lambda>p. type p = GREEN) ps)
           + 5 * length (filter (\<lambda>p. type p = BLUE) ps)
           + 25 * length (filter (\<lambda>p. type p = PURPLE) ps)
           + 125 * length (filter (\<lambda>p. type p = GOLDEN) ps))"
  by (simp add: green_equivalent_def Let_def count_all_fields tally_split algebra_simps)

lemma sint_of_nat_c_int: "n < 2 ^ 31 \<Longrightarrow> sint (of_nat n :: c_int) = int n"
proof -
  assume n: "n < 2 ^ 31"
  then have "int n < 2 ^ 31" by (metis of_nat_less_iff of_nat_numeral of_nat_power)
  then show ?thesis
    by (simp add: signed_of_nat signed_take_bit_int_eq_self)
qed

lemma tier_counts_le:
  "length (filter (\<lambda>p. type p = GREEN) ps) + length (filter (\<lambda>p. type p = BLUE) ps)
   + length (filter (\<lambda>p. type p = PURPLE) ps) + length (filter (\<lambda>p. type p = GOLDEN) ps)
   \<le> length ps"
  by (induction ps) auto

lemma green_equivalent_known:
  "green_equivalent (count_all (filter (\<lambda>p. type p \<noteq> UNKNOWN) ps)) = green_equivalent (count_all ps)"
proof -
  have "\<And>t. t \<noteq> UNKNOWN \<Longrightarrow>
      filter (\<lambda>p. type p = t) (filter (\<lambda>p. type p \<noteq> UNKNOWN) ps) = filter (\<lambda>p. type p = t) ps"
    by (auto intro: filter_cong)
  then show ?thesis by (simp only: green_equivalent_tally) simp
qed

lemma tally_insert_unknown:
  "type p = UNKNOWN \<Longrightarrow> t \<noteq> UNKNOWN \<Longrightarrow> tally t e (xs @ p # ys) = tally t e (xs @ ys)"
  by (auto simp: tally_def)

lemma scast_of_nat_c_int:
  "n < 2 ^ 31 \<Longrightarrow> (scast (of_nat n :: c_int) :: long_long) = of_nat n"
  by (simp add: scast_eq sint_of_nat_c_int)

lemma recom_tally_le:
  "tally GREEN True ps + tally BLUE True ps + tally PURPLE True ps + tally GOLDEN True ps
     \<le> length ps"
  unfolding tally_def by (induction ps) auto

lemma recom_tally_known:
  "\<forall>p\<in>set ps. recombobulated p \<longrightarrow> type p \<noteq> UNKNOWN \<Longrightarrow>
   tally GREEN True ps + tally BLUE True ps + tally PURPLE True ps + tally GOLDEN True ps
     = length (filter recombobulated ps)"
proof (induction ps)
  case Nil
  then show ?case by (simp add: tally_def)
next
  case (Cons p ps)
  then show ?case by (cases "type p") (auto simp: tally_def)
qed

lemma adjusted_cost_tally:
  assumes "length ps < 2 ^ 31"
  shows "adjusted_cost (count_all ps) price =
     sum_list (map cost ps)
     - of_nat (tally GREEN True ps + tally BLUE True ps + tally PURPLE True ps
               + tally GOLDEN True ps) * price"
proof -
  let ?m = "tally GREEN True ps + tally BLUE True ps + tally PURPLE True ps + tally GOLDEN True ps"
  from assms recom_tally_le[of ps] have "?m < 2 ^ 31" by linarith
  from scast_of_nat_c_int[OF this] show ?thesis
    by (simp add: adjusted_cost_def count_all_fields)
qed

lemma sint_of_int_long_long:
  "- (2 ^ 63) \<le> k \<Longrightarrow> k < 2 ^ 63 \<Longrightarrow> sint (word_of_int k :: long_long) = k"
  by (simp add: signed_of_int signed_take_bit_int_eq_self)

lemma green_equivalent_append:
  "green_equivalent (count_all (A @ B)) = green_equivalent (count_all A) + green_equivalent (count_all B)"
  by (simp add: green_equivalent_def Let_def count_all_fields tally_append algebra_simps)

lemma adjusted_cost_append:
  assumes "length A + length B < 2 ^ 31"
  shows "adjusted_cost (count_all (A @ B)) price =
         adjusted_cost (count_all A) price + adjusted_cost (count_all B) price"
proof -
  from assms have "length (A @ B) < 2 ^ 31" "length A < 2 ^ 31" "length B < 2 ^ 31" by simp_all
  then show ?thesis
    by (simp add: adjusted_cost_tally tally_append algebra_simps)
qed

section \<open>Properties of the extraction\<close>

lemma in_rmatch_Grp_text:
  "(c', s') \<in> set (rmatch (Grp k r) (c, s)) \<longleftrightarrow>
     (\<exists>c0 m. s = m @ s' \<and> (c0, s') \<in> set (rmatch r (c, s)) \<and> c' = c0[k := m])"
proof
  assume "(c', s') \<in> set (rmatch (Grp k r) (c, s))"
  then obtain c0 where c0: "(c0, s') \<in> set (rmatch r (c, s))"
    and c': "c' = c0[k := take (length s - length s') s]"
    by (auto simp only: in_rmatch_Grp)
  from rmatch_suffix[OF c0] obtain m where m: "s = m @ s'" by (auto simp: suffix_def)
  then have t: "take (length s - length s') s = m" by simp
  have "s = m @ s' \<and> (c0, s') \<in> set (rmatch r (c, s)) \<and> c' = c0[k := m]"
    using m c0 c' unfolding t by (intro conjI)
  then show "\<exists>c0 m. s = m @ s' \<and> (c0, s') \<in> set (rmatch r (c, s)) \<and> c' = c0[k := m]"
    by (intro exI)
next
  assume "\<exists>c0 m. s = m @ s' \<and> (c0, s') \<in> set (rmatch r (c, s)) \<and> c' = c0[k := m]"
  then obtain c0 m where m: "s = m @ s'" and c0: "(c0, s') \<in> set (rmatch r (c, s))"
    and c': "c' = c0[k := m]" by (elim exE conjE)
  from m have t: "take (length s - length s') s = m" by simp
  have "(c0, s') \<in> set (rmatch r (c, s)) \<and> c' = c0[k := take (length s - length s') s]"
    using c0 c' unfolding t by (intro conjI)
  then have "\<exists>c0. (c0, s') \<in> set (rmatch r (c, s)) \<and> c' = c0[k := take (length s - length s') s]"
    by (intro exI)
  then show "(c', s') \<in> set (rmatch (Grp k r) (c, s))"
    by (simp only: in_rmatch_Grp)
qed

lemma rmatch_SeqE:
  assumes "(c', s') \<in> set (rmatch (Seq r1 r2) (c, s))"
  obtains c1 s1 where "(c1, s1) \<in> set (rmatch r1 (c, s))" "(c', s') \<in> set (rmatch r2 (c1, s1))"
  using assms by auto

lemma rmatch_LitD:
  "(c', s') \<in> set (rmatch (Lit l) (c, s)) \<Longrightarrow> c' = c \<and> s = l @ s'"
  by (simp only: in_rmatch_Lit)

lemma rmatch_PlusGD:
  "(c', s') \<in> set (rmatch (PlusG a) (c, s)) \<Longrightarrow>
     c' = c \<and> (\<exists>xs. xs \<noteq> [] \<and> (\<forall>x\<in>set xs. atom_ok a x) \<and> s = xs @ s')"
  by (simp only: in_rmatch_PlusG)

lemma rmatch_PlusLD:
  "(c', s') \<in> set (rmatch (PlusL a) (c, s)) \<Longrightarrow>
     c' = c \<and> (\<exists>xs. xs \<noteq> [] \<and> (\<forall>x\<in>set xs. atom_ok a x) \<and> s = xs @ s')"
  by (simp only: in_rmatch_PlusL)

lemma rmatch_Grp_AtomD:
  "(c', s') \<in> set (rmatch (Grp k (Atom a)) (c, s)) \<Longrightarrow>
     \<exists>x. atom_ok a x \<and> s = x # s' \<and> c' = c[k := [x]]"
  unfolding in_rmatch_Grp_text in_rmatch_Atom by auto

lemma rmatch_Grp_PlusGD:
  "(c', s') \<in> set (rmatch (Grp k (PlusG a)) (c, s)) \<Longrightarrow>
     \<exists>xs. xs \<noteq> [] \<and> (\<forall>x\<in>set xs. atom_ok a x) \<and> s = xs @ s' \<and> c' = c[k := xs]"
  unfolding in_rmatch_Grp_text in_rmatch_PlusG by auto

lemma rmatch_Grp_colorD:
  "(c', s') \<in> set (rmatch (Grp k (Alt (Lit l1) (Alt (Lit l2) (Alt (Lit l3) (Lit l4))))) (c, s)) \<Longrightarrow>
     \<exists>m. (m = l1 \<or> m = l2 \<or> m = l3 \<or> m = l4) \<and> s = m @ s' \<and> c' = c[k := m]"
  unfolding in_rmatch_Grp_text in_rmatch_Alt in_rmatch_Lit by auto

lemma rmatch_Grp_kindD:
  "(c', s') \<in> set (rmatch (Grp k (Alt (Lit l1) (Lit l2))) (c, s)) \<Longrightarrow>
     \<exists>m. (m = l1 \<or> m = l2) \<and> s = m @ s' \<and> c' = c[k := m]"
  unfolding in_rmatch_Grp_text in_rmatch_Alt in_rmatch_Lit by auto

text \<open>The shape of every match of the pattern, and what its groups hold.\<close>

lemma logPattarn_match:
  assumes "(caps', s') \<in> set (rmatch logPattarn (caps, s))"
  shows "\<exists>x1 c col kind x2 x3 num.
     s = ''You purchased '' @ x1 @ [c] @ col @ '' Jerry '' @ kind @ '' '' @ x2 @ ''for ''
           @ x3 @ num @ '' coins'' @ s'
     \<and> caps' = caps[1 := [c], 2 := col, 3 := kind, 4 := num]
     \<and> x1 \<noteq> [] \<and> (col = ''Green'' \<or> col = ''Blue'' \<or> col = ''PurPle'' \<or> col = ''Golden'')
     \<and> (kind = ''Talisman'' \<or> kind = ''Artifact'')
     \<and> x2 \<noteq> [] \<and> x3 \<noteq> [] \<and> num \<noteq> [] \<and> set num \<subseteq> set ''0123456789,''
     \<and> (\<forall>x\<in>set (x1 @ [c] @ x2 @ x3). atom_ok AnyChar x)"
proof -
  define R11 where "R11 = Lit '' coins''"
  define R10 where "R10 = Seq (Grp 4 (PlusG (OneOf ''0123456789,''))) R11"
  define R9 where "R9 = Seq (PlusL AnyChar) R10"
  define R8 where "R8 = Seq (Lit ''for '') R9"
  define R7 where "R7 = Seq (PlusG AnyChar) R8"
  define R6 where "R6 = Seq (Lit '' '') R7"
  define R5 where "R5 = Seq (Grp 3 (Alt (Lit ''Talisman'') (Lit ''Artifact''))) R6"
  define R4 where "R4 = Seq (Lit '' Jerry '') R5"
  define R3 where "R3 = Seq (Grp 2 (Alt (Lit ''Green'') (Alt (Lit ''Blue'')
      (Alt (Lit ''PurPle'') (Lit ''Golden''))))) R4"
  define R2 where "R2 = Seq (Grp 1 (Atom AnyChar)) R3"
  define R1 where "R1 = Seq (PlusG AnyChar) R2"
  have pat: "logPattarn = Seq (Lit ''You purchased '') R1"
    by (simp add: logPattarn_def R1_def R2_def R3_def R4_def R5_def R6_def R7_def R8_def
        R9_def R10_def R11_def)
  from assms[unfolded pat] obtain c1 s1 where
    a1: "(c1, s1) \<in> set (rmatch (Lit ''You purchased '') (caps, s))" and
    r1: "(caps', s') \<in> set (rmatch R1 (c1, s1))" by (rule rmatch_SeqE)
  have c1: "c1 = caps" using rmatch_LitD[OF a1] by (rule conjunct1)
  have s: "s = ''You purchased '' @ s1" using rmatch_LitD[OF a1] by (rule conjunct2)
  from r1[unfolded R1_def] obtain c2 s2 where
    a2: "(c2, s2) \<in> set (rmatch (PlusG AnyChar) (c1, s1))" and
    r2: "(caps', s') \<in> set (rmatch R2 (c2, s2))" by (rule rmatch_SeqE)
  from rmatch_PlusGD[OF a2] obtain x1 where c2: "c2 = c1" and x1: "x1 \<noteq> []"
    "\<forall>x\<in>set x1. atom_ok AnyChar x" and s1: "s1 = x1 @ s2" by (elim conjE exE)
  from r2[unfolded R2_def] obtain c3 s3 where
    a3: "(c3, s3) \<in> set (rmatch (Grp 1 (Atom AnyChar)) (c2, s2))" and
    r3: "(caps', s') \<in> set (rmatch R3 (c3, s3))" by (rule rmatch_SeqE)
  from rmatch_Grp_AtomD[OF a3] obtain c where c: "atom_ok AnyChar c" and s2: "s2 = c # s3"
    and c3: "c3 = c2[1 := [c]]" by (elim conjE exE)
  from r3[unfolded R3_def] obtain c4 s4 where
    a4: "(c4, s4) \<in> set (rmatch (Grp 2 (Alt (Lit ''Green'') (Alt (Lit ''Blue'')
      (Alt (Lit ''PurPle'') (Lit ''Golden''))))) (c3, s3))" and
    r4: "(caps', s') \<in> set (rmatch R4 (c4, s4))" by (rule rmatch_SeqE)
  from rmatch_Grp_colorD[OF a4] obtain col where
    col: "col = ''Green'' \<or> col = ''Blue'' \<or> col = ''PurPle'' \<or> col = ''Golden''"
    and s3: "s3 = col @ s4" and c4: "c4 = c3[2 := col]" by (elim conjE exE)
  from r4[unfolded R4_def] obtain c5 s5 where
    a5: "(c5, s5) \<in> set (rmatch (Lit '' Jerry '') (c4, s4))" and
    r5: "(caps', s') \<in> set (rmatch R5 (c5, s5))" by (rule rmatch_SeqE)
  have c5: "c5 = c4" using rmatch_LitD[OF a5] by (rule conjunct1)
  have s4: "s4 = '' Jerry '' @ s5" using rmatch_LitD[OF a5] by (rule conjunct2)
  from r5[unfolded R5_def] obtain c6 s6 where
    a6: "(c6, s6) \<in> set (rmatch (Grp 3 (Alt (Lit ''Talisman'') (Lit ''Artifact''))) (c5, s5))" and
    r6: "(caps', s') \<in> set (rmatch R6 (c6, s6))" by (rule rmatch_SeqE)
  from rmatch_Grp_kindD[OF a6] obtain kind where
    kind: "kind = ''Talisman'' \<or> kind = ''Artifact''"
    and s5: "s5 = kind @ s6" and c6: "c6 = c5[3 := kind]" by (elim conjE exE)
  from r6[unfolded R6_def] obtain c7 s7 where
    a7: "(c7, s7) \<in> set (rmatch (Lit '' '') (c6, s6))" and
    r7: "(caps', s') \<in> set (rmatch R7 (c7, s7))" by (rule rmatch_SeqE)
  have c7: "c7 = c6" using rmatch_LitD[OF a7] by (rule conjunct1)
  have s6: "s6 = '' '' @ s7" using rmatch_LitD[OF a7] by (rule conjunct2)
  from r7[unfolded R7_def] obtain c8 s8 where
    a8: "(c8, s8) \<in> set (rmatch (PlusG AnyChar) (c7, s7))" and
    r8: "(caps', s') \<in> set (rmatch R8 (c8, s8))" by (rule rmatch_SeqE)
  from rmatch_PlusGD[OF a8] obtain x2 where c8: "c8 = c7" and x2: "x2 \<noteq> []"
    "\<forall>x\<in>set x2. atom_ok AnyChar x" and s7: "s7 = x2 @ s8" by (elim conjE exE)
  from r8[unfolded R8_def] obtain c9 s9 where
    a9: "(c9, s9) \<in> set (rmatch (Lit ''for '') (c8, s8))" and
    r9: "(caps', s') \<in> set (rmatch R9 (c9, s9))" by (rule rmatch_SeqE)
  have c9: "c9 = c8" using rmatch_LitD[OF a9] by (rule conjunct1)
  have s8: "s8 = ''for '' @ s9" using rmatch_LitD[OF a9] by (rule conjunct2)
  from r9[unfolded R9_def] obtain c10 s10 where
    a10: "(c10, s10) \<in> set (rmatch (PlusL AnyChar) (c9, s9))" and
    r10: "(caps', s') \<in> set (rmatch R10 (c10, s10))" by (rule rmatch_SeqE)
  from rmatch_PlusLD[OF a10] obtain x3 where c10: "c10 = c9" and x3: "x3 \<noteq> []"
    "\<forall>x\<in>set x3. atom_ok AnyChar x" and s9: "s9 = x3 @ s10" by (elim conjE exE)
  from r10[unfolded R10_def] obtain c11 s11 where
    a11: "(c11, s11) \<in> set (rmatch (Grp 4 (PlusG (OneOf ''0123456789,''))) (c10, s10))" and
    r11: "(caps', s') \<in> set (rmatch R11 (c11, s11))" by (rule rmatch_SeqE)
  from rmatch_Grp_PlusGD[OF a11] obtain num where num: "num \<noteq> []"
    "\<forall>x\<in>set num. atom_ok (OneOf ''0123456789,'') x" and s10: "s10 = num @ s11"
    and c11: "c11 = c10[4 := num]" by (elim conjE exE)
  have caps': "caps' = c11" using rmatch_LitD[OF r11[unfolded R11_def]] by (rule conjunct1)
  have s11: "s11 = '' coins'' @ s'"
    using rmatch_LitD[OF r11[unfolded R11_def]] by (rule conjunct2)
  have 1: "s = ''You purchased '' @ x1 @ [c] @ col @ '' Jerry '' @ kind @ '' '' @ x2 @ ''for ''
           @ x3 @ num @ '' coins'' @ s'"
    unfolding s s1 s2 s3 s4 s5 s6 s7 s8 s9 s10 s11 by simp
  have 2: "caps' = caps[1 := [c], 2 := col, 3 := kind, 4 := num]"
    unfolding caps' c11 c10 c9 c8 c7 c6 c5 c4 c3 c2 c1 ..
  have 3: "set num \<subseteq> set ''0123456789,''"
    using num(2) unfolding atom_ok.simps subset_eq .
  have 4: "\<forall>x\<in>set (x1 @ [c] @ x2 @ x3). atom_ok AnyChar x"
    using x1(2) c x2(2) x3(2) by (simp only: set_append ball_Un ball_simps list.set)
  show ?thesis
    apply (rule exI[of _ x1], rule exI[of _ c], rule exI[of _ col], rule exI[of _ kind],
        rule exI[of _ x2], rule exI[of _ x3], rule exI[of _ num])
    apply (intro conjI)
    apply (rule 1 2 x1(1) col kind x2(1) x3(1) num(1) 3 4)+
    done
qed

lemma replicate_5: "replicate 5 x = [x, x, x, x, x]"
  by (simp add: eval_nat_numeral)

lemma regex_search_logPattarn_subs:
  assumes "regex_search logPattarn s = Some (n, caps, rest)"
  shows "\<exists>c col kind num.
     length caps = 5 \<and> caps ! 1 = [c] \<and> caps ! 2 = col \<and> caps ! 3 = kind \<and> caps ! 4 = num
     \<and> atom_ok AnyChar c
     \<and> (col = ''Green'' \<or> col = ''Blue'' \<or> col = ''PurPle'' \<or> col = ''Golden'')
     \<and> (kind = ''Talisman'' \<or> kind = ''Artifact'')
     \<and> num \<noteq> [] \<and> set num \<subseteq> set ''0123456789,''"
proof -
  from regex_search_SomeD[OF assms] obtain c0 ms where
    m: "rmatch logPattarn (replicate 5 [], drop n s) = (c0, rest) # ms" and
    caps: "caps = c0[0 := take (length s - n - length rest) (drop n s)]"
    by (elim conjE exE)
  from m have "(c0, rest) \<in> set (rmatch logPattarn (replicate 5 [], drop n s))" by simp
  from logPattarn_match[OF this] obtain x1 c col kind x2 x3 num where
    c0: "c0 = (replicate 5 [])[1 := [c], 2 := col, 3 := kind, 4 := num]" and
    col: "col = ''Green'' \<or> col = ''Blue'' \<or> col = ''PurPle'' \<or> col = ''Golden''" and
    kind: "kind = ''Talisman'' \<or> kind = ''Artifact''" and
    num: "num \<noteq> []" "set num \<subseteq> set ''0123456789,''" and
    ok: "\<forall>x\<in>set (x1 @ [c] @ x2 @ x3). atom_ok AnyChar x"
    by (elim conjE exE)
  have c: "atom_ok AnyChar c" using ok by (simp only: set_append ball_Un ball_simps list.set)
  have 1: "length caps = 5" and 2: "caps ! 1 = [c]" and 3: "caps ! 2 = col"
    and 4: "caps ! 3 = kind" and 5: "caps ! 4 = num"
    unfolding caps c0 replicate_5 by simp_all
  show ?thesis
    apply (rule exI[of _ c], rule exI[of _ col], rule exI[of _ kind], rule exI[of _ num])
    apply (intro conjI)
    apply (rule 1 2 3 4 5 c col kind num)+
    done
qed

lemma all_matches_search:
  "m \<in> set (all_matches off s) \<Longrightarrow>
     \<exists>s0 n rest. regex_search logPattarn s0 = Some (n, subs m, rest)"
proof (induction off s rule: all_matches.induct)
  case (1 off s)
  show ?case
  proof (cases "regex_search logPattarn s")
    case None
    with 1(2) show ?thesis by (simp add: all_matches.simps[of off s])
  next
    case (Some r)
    obtain n caps rest where r: "r = (n, caps, rest)" by (cases r)
    from 1(2) Some r have
      "m = \<lparr>position = off + n, subs = caps\<rparr> \<or>
       m \<in> set (all_matches (off + (length s - length rest)) rest)"
      by (simp add: all_matches.simps[of off s])
    then show ?thesis
    proof
      assume "m = \<lparr>position = off + n, subs = caps\<rparr>"
      then have "regex_search logPattarn s = Some (n, subs m, rest)" using Some r by simp
      then show ?thesis by (intro exI)
    next
      assume "m \<in> set (all_matches (off + (length s - length rest)) rest)"
      with 1(1)[OF Some r[symmetric] refl] show ?thesis by simp
    qed
  qed
qed

text \<open>What the loop of \<open>ExtractJerryPurchases\<close> reads from a match.\<close>

lemma raw_matches_shape:
  assumes "(rarity, color, costTok) \<in> set (raw_matches logContent)"
  shows "(\<exists>c. rarity = [c])
     \<and> (color = ''Green'' \<or> color = ''Blue'' \<or> color = ''PurPle'' \<or> color = ''Golden'')
     \<and> costTok \<noteq> [] \<and> set costTok \<subseteq> set ''0123456789,''"
proof -
  from assms obtain m where m: "m \<in> set (all_matches 0 logContent)"
    and eq: "rarity = subs m ! 1" "color = subs m ! 2" "costTok = subs m ! 4"
    unfolding raw_matches_def by auto
  from all_matches_search[OF m] obtain s0 n rest where
    "regex_search logPattarn s0 = Some (n, subs m, rest)" by (elim exE)
  from regex_search_logPattarn_subs[OF this] obtain c col kind num where
    "subs m ! 1 = [c]" "subs m ! 2 = col" "subs m ! 4 = num"
    "col = ''Green'' \<or> col = ''Blue'' \<or> col = ''PurPle'' \<or> col = ''Golden''"
    "num \<noteq> []" "set num \<subseteq> set ''0123456789,''"
    by (elim conjE exE)
  then show ?thesis unfolding eq by simp
qed

lemma all_matches_size:
  assumes "m \<in> set (all_matches off s)"
  shows "length (subs m) = 5"
proof -
  from all_matches_search[OF assms] obtain s0 n rest where
    "regex_search logPattarn s0 = Some (n, subs m, rest)" by (elim exE)
  from regex_search_logPattarn_subs[OF this] show ?thesis by (elim conjE exE)
qed

lemma jerry_type_pattern_colors:
  "jerry_type ''Green'' = GREEN" "jerry_type ''Blue'' = BLUE"
  "jerry_type ''PurPle'' = UNKNOWN" "jerry_type ''Golden'' = GOLDEN"
  by (simp_all add: jerry_type_def)

lemma classify_type: "type (fst (classify (rarity, color, costTok))) = jerry_type color"
  by (simp add: classify_def Let_def split: prod.splits)

lemma ExtractJerryPurchases_not_purple:
  assumes "p \<in> set (ExtractJerryPurchases logContent)"
  shows "type p \<noteq> PURPLE"
proof -
  from assms obtain rarity color costTok where
    m: "(rarity, color, costTok) \<in> set (raw_matches logContent)"
    and p: "p = fst (classify (rarity, color, costTok))"
    unfolding ExtractJerryPurchases_def by auto
  from raw_matches_shape[OF m]
  have "color = ''Green'' \<or> color = ''Blue'' \<or> color = ''PurPle'' \<or> color = ''Golden''"
    by (elim conjE)
  then have "jerry_type color \<noteq> PURPLE"
    by (elim disjE) (simp_all only: jerry_type_pattern_colors JerryType.distinct not_False_eq_True)
  then show ?thesis unfolding p classify_type .
qed

lemma all_purchases_not_purple:
  "p \<in> set (all_purchases contents) \<Longrightarrow> type p \<noteq> PURPLE"
  unfolding all_purchases_def
  by (auto dest: ExtractJerryPurchases_not_purple split: if_splits)

lemma tally_none: "(\<And>p. p \<in> set ps \<Longrightarrow> type p \<noteq> t) \<Longrightarrow> tally t e ps = 0"
  unfolding tally_def by (induction ps) auto

lemma classify_recombobulated:
  "recombobulated (fst (classify (rarity, color, costTok)))
     = is_recombobulated (jerry_type color) rarity"
  by (simp add: classify_def Let_def split: prod.splits)

text \<open>No purchase of unknown type is marked as recombobulated, in any file.\<close>

lemma classify_recombobulated_known:
  "recombobulated (fst (classify m)) \<Longrightarrow> type (fst (classify m)) \<noteq> UNKNOWN"
  by (cases m) (auto simp add: classify_def Let_def is_recombobulated_def split: prod.splits)

lemma all_purchases_recombobulated_known:
  "\<forall>p\<in>set (all_purchases contents). recombobulated p \<longrightarrow> type p \<noteq> UNKNOWN"
  using classify_recombobulated_known
  by (auto simp add: all_purchases_def ExtractJerryPurchases_def)

subsection \<open>The scan from left to right\<close>

lemma rmatch_logPattarn_length:
  assumes "(c, rest) \<in> set (rmatch logPattarn (replicate 5 [], s))"
  shows "length c = 5"
proof -
  from logPattarn_match[OF assms] obtain x1 ch col kind x2 x3 num where
    "c = (replicate 5 [])[1 := [ch], 2 := col, 3 := kind, 4 := num]"
    by (elim conjE exE)
  then show ?thesis by simp
qed

lemma regex_search_Some_props:
  assumes "regex_search logPattarn s = Some (n, caps, rest)"
  shows "n + length rest < length s"
    and "match_at s n = Some (caps, length s - length rest)"
    and "length (caps ! 0) = length s - n - length rest"
    and "\<forall>i<n. match_at s i = None"
    and "s = take (length s - length rest) s @ rest"
proof -
  from regex_search_SomeD[OF assms] obtain c ms where
    n: "n \<le> length s" and
    m: "rmatch logPattarn (replicate 5 [], drop n s) = (c, rest) # ms" and
    caps: "caps = c[0 := take (length s - n - length rest) (drop n s)]" and
    none: "\<forall>i<n. rmatch logPattarn (replicate 5 [], drop i s) = []"
    by (elim conjE exE)
  from m have mem: "(c, rest) \<in> set (rmatch logPattarn (replicate 5 [], drop n s))" by simp
  from rmatch_logPattarn_shorter[OF mem] show 1: "n + length rest < length s" by simp
  show "match_at s n = Some (caps, length s - length rest)"
    unfolding match_at_def m caps by simp
  from rmatch_logPattarn_length[OF mem] have "0 < length c" by simp
  then have "caps ! 0 = take (length s - n - length rest) (drop n s)"
    unfolding caps by simp
  then show "length (caps ! 0) = length s - n - length rest" using 1 by simp
  show "\<forall>i<n. match_at s i = None" using none unfolding match_at_def by simp
  from rmatch_suffix[OF mem] have "suffix rest s"
    by (rule suffix_order.trans) (rule suffix_drop)
  then obtain p where "s = p @ rest" by (auto simp: suffix_def)
  then show "s = take (length s - length rest) s @ rest" by simp
qed

lemma regex_search_None_props:
  assumes "regex_search logPattarn s = None" and "i \<le> length s"
  shows "match_at s i = None"
  using regex_search_NoneD[OF assms] unfolding match_at_def by simp

lemma match_at_append:
  "match_at (pre @ s) (length pre + i)
     = map_option (\<lambda>(c, e). (c, length pre + e)) (match_at s i)"
proof (cases "rmatch logPattarn (replicate 5 [], drop i s)")
  case Nil
  then show ?thesis unfolding match_at_def by simp
next
  case (Cons x xs)
  obtain c rest where x: "x = (c, rest)" by (cases x)
  have "(c, rest) \<in> set (rmatch logPattarn (replicate 5 [], drop i s))"
    unfolding Cons x by simp
  from rmatch_suffix[OF this] have "length rest \<le> length s - i"
    by (auto dest: suffix_length_le)
  then have "length pre + length s - length rest = length pre + (length s - length rest)"
    "length pre + length s - (length pre + i) - length rest = length s - i - length rest"
    by simp_all
  moreover have "drop (length pre + i) (pre @ s) = drop i s" by simp
  ultimately show ?thesis unfolding match_at_def by (simp add: Cons x)
qed

lemma all_matches_scan:
  assumes "length pre = off"
  shows "(\<forall>m\<in>set (all_matches off s).
            off \<le> position m
          \<and> match_at (pre @ s) (position m)
               = Some (subs m, position m + length (subs m ! 0))
          \<and> position m + length (subs m ! 0) \<le> length (pre @ s))
     \<and> sorted_wrt (\<lambda>a b. position a + length (subs a ! 0) \<le> position b)
          (all_matches off s)
     \<and> (\<forall>j. off \<le> j \<and> j \<le> length (pre @ s) \<and> match_at (pre @ s) j \<noteq> None \<longrightarrow>
            (\<exists>m\<in>set (all_matches off s).
               position m \<le> j \<and> j < position m + length (subs m ! 0)))"
  using assms
proof (induction off s arbitrary: pre rule: all_matches.induct)
  case (1 off s)
  note off = \<open>length pre = off\<close>
  show ?case
  proof (cases "regex_search logPattarn s")
    case None
    have "match_at (pre @ s) j = None" if "off \<le> j" "j \<le> length (pre @ s)" for j
    proof -
      from that off have j: "j = length pre + (j - off)" "j - off \<le> length s" by simp_all
      show ?thesis
        by (subst j(1), subst match_at_append)
           (simp add: regex_search_None_props[OF None j(2)])
    qed
    then show ?thesis by (simp add: all_matches.simps[of off s] None)
  next
    case (Some r)
    obtain n caps rest where r: "r = (n, caps, rest)" by (cases r)
    note search = Some[unfolded r]
    note p = regex_search_Some_props[OF search]
    let ?off' = "off + (length s - length rest)"
    let ?m0 = "\<lparr>position = off + n, subs = caps\<rparr>"
    let ?pre' = "pre @ take (length s - length rest) s"
    have am: "all_matches off s = ?m0 # all_matches ?off' rest"
      by (simp add: all_matches.simps[of off s] search)
    have same: "?pre' @ rest = pre @ s" using p(5) by simp
    have len: "length ?pre' = ?off'" using off by simp
    note IH = 1(1)[OF Some r[symmetric] refl len, unfolded same]
    have end0: "position ?m0 + length (subs ?m0 ! 0) = ?off'" using p(1,3) by simp
    have at0: "match_at (pre @ s) (position ?m0) = Some (subs ?m0, ?off')"
      using match_at_append[of pre s n] off p(2) by simp
    have i: "off \<le> position m
          \<and> match_at (pre @ s) (position m) = Some (subs m, position m + length (subs m ! 0))
          \<and> position m + length (subs m ! 0) \<le> length (pre @ s)"
      if "m \<in> set (all_matches off s)" for m
    proof (cases "m = ?m0")
      case True
      show ?thesis unfolding True using at0 end0 off p(1) by simp
    next
      case False
      with that am have "m \<in> set (all_matches ?off' rest)" by simp
      with IH show ?thesis by auto
    qed
    have ii: "sorted_wrt (\<lambda>a b. position a + length (subs a ! 0) \<le> position b)
          (all_matches off s)"
      unfolding am sorted_wrt.simps using IH end0 by auto
    have iii: "\<exists>m\<in>set (all_matches off s). position m \<le> j \<and> j < position m + length (subs m ! 0)"
      if j: "off \<le> j" "j \<le> length (pre @ s)" "match_at (pre @ s) j \<noteq> None" for j
    proof (cases "j < ?off'")
      case True
      from j(1) off have eq: "j = length pre + (j - off)" by simp
      from j(3) have "match_at s (j - off) \<noteq> None"
        by (subst (asm) eq, subst (asm) match_at_append) simp
      with p(4) have "n \<le> j - off" by (meson not_le_imp_less)
      with j(1) have "position ?m0 \<le> j" by simp
      moreover from True end0 have "j < position ?m0 + length (subs ?m0 ! 0)" by simp
      ultimately show ?thesis unfolding am by (intro bexI[of _ ?m0]) simp_all
    next
      case False
      then have "?off' \<le> j" by simp
      with IH j(2,3) obtain m where "m \<in> set (all_matches ?off' rest)"
        "position m \<le> j \<and> j < position m + length (subs m ! 0)" by blast
      then show ?thesis unfolding am by (intro bexI[of _ m]) simp_all
    qed
    from i ii iii show ?thesis by blast
  qed
qed

subsection \<open>Line terminators\<close>

lemma plus_greedy_barrier:
  "\<not> atom_ok a x \<Longrightarrow>
     plus_greedy a (u @ x # t) = map (\<lambda>r. r @ x # t) (plus_greedy a u)"
  by (induction u) simp_all

lemma plus_lazy_barrier:
  "\<not> atom_ok a x \<Longrightarrow>
     plus_lazy a (u @ x # t) = map (\<lambda>r. r @ x # t) (plus_lazy a u)"
  by (induction u) simp_all

lemma prefix_barrier:
  assumes "x \<notin> set l"
  shows "prefix l (u @ x # t) \<longleftrightarrow> prefix l u"
proof
  assume "prefix l (u @ x # t)"
  then consider "prefix l u" | us where "l = u @ us" "prefix us (x # t)"
    unfolding prefix_append by blast
  then show "prefix l u"
  proof cases
    case 1
    then show ?thesis .
  next
    case 2
    with assms have "us = []" by (cases us) auto
    with 2 show ?thesis by simp
  qed
next
  assume "prefix l u"
  then show "prefix l (u @ x # t)" by (rule prefix_prefix)
qed

text \<open>A rejected character is a barrier: what precedes it is matched as if the text
  ended there.\<close>

lemma rmatch_barrier:
  "rejects r x \<Longrightarrow>
     rmatch r (caps, u @ x # t) = map (\<lambda>(c, r'). (c, r' @ x # t)) (rmatch r (caps, u))"
proof (induction r arbitrary: caps u)
  case (Lit l)
  then have "x \<notin> set l" by simp
  from prefix_barrier[OF this] show ?case by (auto dest: prefix_length_le)
next
  case (Atom a)
  then show ?case by (cases u) simp_all
next
  case (PlusG a)
  then show ?case by (simp add: plus_greedy_barrier)
next
  case (PlusL a)
  then show ?case by (simp add: plus_lazy_barrier)
next
  case (Alt r1 r2)
  then show ?case by simp
next
  case (Seq r1 r2)
  let ?f = "\<lambda>(c, r'). (c, r' @ x # t)"
  from Seq.prems have 1: "rejects r1 x" and 2: "rejects r2 x" by simp_all
  have "rmatch r2 (?f st) = map ?f (rmatch r2 st)" for st
    by (cases st) (simp add: Seq.IH(2)[OF 2])
  then have "concat (map (rmatch r2) (map ?f xs)) = map ?f (concat (map (rmatch r2) xs))" for xs
    by (simp add: map_concat comp_def)
  then show ?case by (simp add: Seq.IH(1)[OF 1])
next
  case (Grp k r)
  from Grp.prems have 1: "rejects r x" by simp
  have "(case (case st of (c, r') \<Rightarrow> (c, r' @ x # t)) of
           (caps', s') \<Rightarrow> (caps'[k := take (length (u @ x # t) - length s') (u @ x # t)], s'))
        = (case (case st of (caps', s') \<Rightarrow> (caps'[k := take (length u - length s') u], s')) of
           (c, r') \<Rightarrow> (c, r' @ x # t))"
    if "st \<in> set (rmatch r (caps, u))" for st
  proof -
    obtain c r' where st: "st = (c, r')" by (cases st)
    from rmatch_suffix[OF that[unfolded st]] have "length r' \<le> length u"
      by (rule suffix_length_le)
    then show ?thesis unfolding st by simp
  qed
  then show ?case by (simp add: Grp.IH[OF 1])
qed

lemma logPattarn_rejects: "rejects logPattarn CHR 0x0A" "rejects logPattarn CHR 0x0D"
  by (simp_all add: logPattarn_def)

lemma rmatch_logPattarn_Nil: "rmatch logPattarn (caps, []) = []"
proof (cases "rmatch logPattarn (caps, [])")
  case (Cons st sts)
  obtain c r where "st = (c, r)" by (cases st)
  with Cons have "(c, r) \<in> set (rmatch logPattarn (caps, []))" by simp
  from rmatch_logPattarn_shorter[OF this] show ?thesis by simp
qed simp

lemma take_barrier:
  "length rest \<le> length u \<Longrightarrow>
     take (length (u @ x # t) - length (rest @ x # t)) (u @ x # t)
       = take (length u - length rest) u"
  by simp

lemma regex_search_barrier:
  assumes "rejects logPattarn x"
  shows "regex_search logPattarn (s @ x # t) =
     (case regex_search logPattarn s of
        Some (n, caps, rest) \<Rightarrow> Some (n, caps, rest @ x # t)
      | None \<Rightarrow> map_option (\<lambda>(n, caps, rest). (length s + 1 + n, caps, rest))
                 (regex_search logPattarn t))"
proof (induction s)
  case Nil
  have "rmatch logPattarn (replicate 5 [], x # t) = []"
    using rmatch_barrier[OF assms, of "replicate 5 []" "[]" t]
    by (simp add: rmatch_logPattarn_Nil)
  then show ?case
    by (simp add: regex_search.simps[of _ "x # t"] regex_search.simps[of _ "[]"]
        rmatch_logPattarn_Nil)
next
  case (Cons a s)
  note b = rmatch_barrier[OF assms, of "replicate 5 []" "a # s" t]
  show ?case
  proof (cases "rmatch logPattarn (replicate 5 [], a # s)")
    case Nil
    then have 1: "rmatch logPattarn (replicate 5 [], (a # s) @ x # t) = []" using b by simp
    have 2: "regex_search logPattarn ((a # s) @ x # t) =
        map_option (\<lambda>(n, caps, rest). (Suc n, caps, rest)) (regex_search logPattarn (s @ x # t))"
      using 1 by (simp add: regex_search.simps[of _ "a # s @ x # t"])
    have 3: "regex_search logPattarn (a # s) =
        map_option (\<lambda>(n, caps, rest). (Suc n, caps, rest)) (regex_search logPattarn s)"
      using Nil by (simp add: regex_search.simps[of _ "a # s"])
    show ?thesis unfolding 2 3 Cons.IH
      by (cases "regex_search logPattarn s")
         (auto simp: option.map_comp comp_def split: prod.splits intro!: option.map_cong)
  next
    case (Cons st sts)
    obtain c rest where st: "st = (c, rest)" by (cases st)
    have "(c, rest) \<in> set (rmatch logPattarn (replicate 5 [], a # s))"
      unfolding Cons st by simp
    from rmatch_suffix[OF this] have le: "length rest \<le> length (a # s)"
      by (rule suffix_length_le)
    have 1: "rmatch logPattarn (replicate 5 [], (a # s) @ x # t)
        = (c, rest @ x # t) # map (\<lambda>(c, r'). (c, r' @ x # t)) sts"
      using b unfolding Cons st by simp
    note 2 = take_barrier[OF le, of x t]
    have 3: "regex_search logPattarn ((a # s) @ x # t)
        = Some (0, c[0 := take (length (a # s) - length rest) (a # s)], rest @ x # t)"
      by (subst regex_search.simps) (simp only: 1 2 list.case prod.case)
    have 4: "regex_search logPattarn (a # s)
        = Some (0, c[0 := take (length (a # s) - length rest) (a # s)], rest)"
      by (subst regex_search.simps) (simp only: Cons st list.case prod.case)
    show ?thesis unfolding 3 4 by simp
  qed
qed

text \<open>The matches of a text with a line terminator are those before it followed by
  those after it.\<close>

lemma all_matches_barrier:
  assumes "rejects logPattarn x"
  shows "all_matches off (s @ x # t) = all_matches off s @ all_matches (off + length s + 1) t"
proof (induction off s rule: all_matches.induct)
  case (1 off s)
  note IH = 1
  note b = regex_search_barrier[OF assms, of s t]
  show ?case
  proof (cases "regex_search logPattarn s")
    case None
    have 1: "all_matches off s = []" by (simp add: all_matches.simps[of off s] None)
    show ?thesis
    proof (cases "regex_search logPattarn t")
      case None
      then show ?thesis
        using b \<open>regex_search logPattarn s = None\<close>
        by (simp add: all_matches.simps[of _ "s @ x # t"] 1 all_matches.simps[of _ t])
    next
      case (Some r)
      obtain n caps rest where r: "r = (n, caps, rest)" by (cases r)
      note st = Some[unfolded r]
      from regex_search_Some_props(1)[OF st]
      have "length rest \<le> length t" by simp
      then have e: "off + (length (s @ x # t) - length rest)
          = off + length s + 1 + (length t - length rest)" by simp
      have sx: "regex_search logPattarn (s @ x # t) = Some (length s + 1 + n, caps, rest)"
        using b \<open>regex_search logPattarn s = None\<close> st by simp
      have A: "all_matches off (s @ x # t) =
          \<lparr>position = off + (length s + 1 + n), subs = caps\<rparr>
            # all_matches (off + (length (s @ x # t) - length rest)) rest"
        by (subst all_matches.simps) (simp only: sx option.case prod.case)
      have B: "all_matches (off + length s + 1) t =
          \<lparr>position = off + length s + 1 + n, subs = caps\<rparr>
            # all_matches (off + length s + 1 + (length t - length rest)) rest"
        by (subst all_matches.simps) (simp only: st option.case prod.case)
      show ?thesis unfolding 1 A B e by (simp add: add.assoc)
    qed
  next
    case (Some r)
    obtain n caps rest where r: "r = (n, caps, rest)" by (cases r)
    note search = Some[unfolded r]
    from regex_search_Some_props(1)[OF search] have le: "length rest \<le> length s" by simp
    have 1: "regex_search logPattarn (s @ x # t) = Some (n, caps, rest @ x # t)"
      using b search by simp
    have 2: "off + (length (s @ x # t) - length (rest @ x # t)) = off + (length s - length rest)"
      using le by simp
    have 3: "off + (length s - length rest) + length rest + 1 = off + length s + 1"
      using le by simp
    have "all_matches off (s @ x # t) =
        \<lparr>position = off + n, subs = caps\<rparr>
          # all_matches (off + (length s - length rest)) (rest @ x # t)"
      by (subst all_matches.simps) (simp only: 1 2 option.case prod.case)
    also have "\<dots> = \<lparr>position = off + n, subs = caps\<rparr>
          # (all_matches (off + (length s - length rest)) rest
             @ all_matches (off + length s + 1) t)"
      unfolding IH[OF Some r[symmetric] refl] 3 ..
    also have "\<dots> = all_matches off s @ all_matches (off + length s + 1) t"
      by (simp add: all_matches.simps[of off s] search)
    finally show ?thesis .
  qed
qed

lemma raw_matches_all: 
  "raw_matches logContent
     = map (\<lambda>m. (subs m ! 1, subs m ! 2, subs m ! 4)) (all_matches 0 logContent)"
proof -
  have "filter (\<lambda>m. 5 \<le> length (subs m)) (all_matches 0 logContent) = all_matches 0 logContent"
    by (rule filter_True) (simp add: all_matches_size)
  then show ?thesis unfolding raw_matches_def by simp
qed

lemma all_matches_shift:
  "map subs (all_matches off s) = map subs (all_matches off' s)"
proof (induction off s arbitrary: off' rule: all_matches.induct)
  case (1 off s)
  show ?case
  proof (cases "regex_search logPattarn s")
    case None
    then show ?thesis by (simp add: all_matches.simps[of _ s])
  next
    case (Some r)
    obtain n caps rest where r: "r = (n, caps, rest)" by (cases r)
    from 1[OF Some r[symmetric] refl, of "off' + (length s - length rest)"]
    show ?thesis by (simp add: all_matches.simps[of _ s] Some r)
  qed
qed

lemma raw_matches_barrier:
  assumes "rejects logPattarn x"
  shows "raw_matches (s @ x # t) = raw_matches s @ raw_matches t"
proof -
  let ?F = "\<lambda>m. (subs m ! 1, subs m ! 2, subs m ! 4)"
  let ?G = "\<lambda>c :: string list. (c ! 1, c ! 2, c ! 4)"
  have "map ?F (all_matches k t) = map ?G (map subs (all_matches k t))" for k
    by simp
  then have "map ?F (all_matches k t) = map ?F (all_matches 0 t)" for k
    by (simp only: all_matches_shift[of k t 0])
  then show ?thesis
    unfolding raw_matches_all all_matches_barrier[OF assms] map_append by simp
qed

subsection \<open>One match on a line\<close>

lemma plus_greedy_shorter: "w \<in> set (plus_greedy a v) \<Longrightarrow> length w < length v"
  unfolding set_plus_greedy by auto

lemma plus_greedy_sorted: "sorted_wrt (\<lambda>a b. length a < length b) (plus_greedy a v)"
  by (induction v) (auto simp: sorted_wrt_append dest: plus_greedy_shorter)

text \<open>The first result of a greedy repetition followed by \<open>g\<close> comes from the longest
  repetition after which \<open>g\<close> matches at all.\<close>

lemma concat_head_sorted:
  assumes "sorted_wrt (\<lambda>a b. length a < length b) ws" and "concat (map g ws) = x # xs"
  shows "\<exists>w0\<in>set ws. x \<in> set (g w0) \<and> (\<forall>w\<in>set ws. length w < length w0 \<longrightarrow> g w = [])"
  using assms
proof (induction ws)
  case Nil
  then show ?case by simp
next
  case (Cons w ws)
  show ?case
  proof (cases "g w = []")
    case True
    with Cons.prems have "sorted_wrt (\<lambda>a b. length a < length b) ws"
      "concat (map g ws) = x # xs" by simp_all
    from Cons.IH[OF this] obtain w0 where w0: "w0 \<in> set ws" "x \<in> set (g w0)"
      "\<forall>w\<in>set ws. length w < length w0 \<longrightarrow> g w = []" by blast
    with True show ?thesis by (intro bexI[of _ w0]) simp_all
  next
    case False
    with Cons.prems(2) have "x \<in> set (g w)" by (cases "g w") simp_all
    moreover from Cons.prems(1) have "\<forall>w'\<in>set ws. length w < length w'" by simp
    then have "\<forall>w'\<in>set (w # ws). length w' < length w \<longrightarrow> g w' = []" by auto
    ultimately show ?thesis by (intro bexI[of _ w]) simp_all
  qed
qed

lemma rmatch_Seq_Grp_Atom_shorter:
  assumes "(c', rest) \<in> set (rmatch (Seq (Grp k (Atom a)) r) (c, w))"
  shows "length rest < length w"
proof -
  from assms obtain c1 s1 where 1: "(c1, s1) \<in> set (rmatch (Grp k (Atom a)) (c, w))"
    and 2: "(c', rest) \<in> set (rmatch r (c1, s1))" by (rule rmatch_SeqE)
  from rmatch_Grp_AtomD[OF 1] obtain x where "w = x # s1" by (elim conjE exE)
  moreover from rmatch_suffix[OF 2] have "length rest \<le> length s1" by (rule suffix_length_le)
  ultimately show ?thesis by simp
qed

lemma rmatch_Lit_PlusG:
  "rmatch (Seq (Lit l) (Seq (PlusG a) R)) (c, u) =
     (if prefix l u
      then concat (map (\<lambda>w. rmatch R (c, w)) (plus_greedy a (drop (length l) u)))
      else [])"
  by (simp add: comp_def)

lemma no_second_match:
  assumes P: "P = Seq (Lit l) (Seq (PlusG a) R)"
    and R: "\<And>c w c' rest. (c', rest) \<in> set (rmatch R (c, w)) \<Longrightarrow> length rest < length w"
    and ok: "\<forall>x\<in>set u. atom_ok a x"
    and first: "rmatch P (c0, u) = (c, rest) # ms"
    and u2: "suffix u2 rest"
    and second: "(c2, rest2) \<in> set (rmatch P (c0, u2))"
  shows False
proof -
  let ?v = "drop (length l) u"
  let ?g = "\<lambda>w. rmatch R (c0, w)"
  from first have "concat (map ?g (plus_greedy a ?v)) = (c, rest) # ms"
    unfolding P rmatch_Lit_PlusG by (simp split: if_splits)
  from concat_head_sorted[OF plus_greedy_sorted this] obtain w0 where
    w0: "w0 \<in> set (plus_greedy a ?v)" "(c, rest) \<in> set (?g w0)"
    and least: "\<forall>w\<in>set (plus_greedy a ?v). length w < length w0 \<longrightarrow> ?g w = []"
    by blast
  from R[OF w0(2)] have short: "length rest < length w0" .
  from rmatch_suffix[OF w0(2)] have rest_w0: "suffix rest w0" .
  from second obtain w2 where w2: "w2 \<in> set (plus_greedy a (drop (length l) u2))"
    "(c2, rest2) \<in> set (?g w2)"
    unfolding P rmatch_Lit_PlusG by (auto split: if_splits)
  from w2(1) obtain ys where "drop (length l) u2 = ys @ w2"
    unfolding set_plus_greedy by blast
  then have "suffix w2 (drop (length l) u2)" by (simp add: suffix_def)
  then have "suffix w2 u2" by (rule suffix_order.trans) (rule suffix_drop)
  then have w2_rest: "suffix w2 rest" using u2 by (rule suffix_order.trans)
  then have w2_w0: "suffix w2 w0" using rest_w0 by (rule suffix_order.trans)
  from w2_rest short have lt: "length w2 < length w0"
    by (auto dest: suffix_length_le)
  from w0(1) obtain xs where xs: "xs \<noteq> []" "?v = xs @ w0"
    unfolding set_plus_greedy by blast
  from w2_w0 obtain zs where zs: "w0 = zs @ w2" by (auto simp: suffix_def)
  have v: "?v = (xs @ zs) @ w2" using xs(2) zs by simp
  have "set (xs @ zs) \<subseteq> set ?v" unfolding v by auto
  also have "\<dots> \<subseteq> set u" by (rule set_drop_subset)
  finally have "\<forall>x\<in>set (xs @ zs). atom_ok a x" using ok by blast
  with xs(1) v have "w2 \<in> set (plus_greedy a ?v)"
    unfolding set_plus_greedy by (intro CollectI exI[of _ "xs @ zs"]) simp
  with least lt have "?g w2 = []" by blast
  with w2(2) show False by simp
qed

text \<open>A text without line terminators has at most one match: the first greedy \<open>.+\<close>
  of the pattern reaches as far as a match allows, so nothing that could match is left
  after the match.\<close>

lemma one_match_per_line:
  assumes "\<forall>x\<in>set s. atom_ok AnyChar x"
  shows "length (all_matches off s) \<le> 1"
proof (cases "regex_search logPattarn s")
  case None
  then show ?thesis by (simp add: all_matches.simps[of off s])
next
  case (Some r)
  obtain n caps rest where r: "r = (n, caps, rest)" by (cases r)
  note search = Some[unfolded r]
  from regex_search_SomeD[OF search] obtain c ms where
    first: "rmatch logPattarn (replicate 5 [], drop n s) = (c, rest) # ms"
    by (elim conjE exE)
  have ok: "\<forall>x\<in>set (drop n s). atom_ok AnyChar x"
    using assms by (meson in_set_dropD)
  have "regex_search logPattarn rest = None"
  proof (rule ccontr)
    assume "regex_search logPattarn rest \<noteq> None"
    then obtain n2 caps2 rest2 where "regex_search logPattarn rest = Some (n2, caps2, rest2)"
      by auto
    from regex_search_SomeD[OF this] obtain c2 ms2 where
      "rmatch logPattarn (replicate 5 [], drop n2 rest) = (c2, rest2) # ms2"
      by (elim conjE exE)
    then have second: "(c2, rest2) \<in> set (rmatch logPattarn (replicate 5 [], drop n2 rest))"
      by simp
    show False
      by (rule no_second_match[OF logPattarn_def rmatch_Seq_Grp_Atom_shorter ok first
            suffix_drop second])
  qed
  then show ?thesis
    by (simp add: all_matches.simps[of off s] search all_matches.simps[of _ rest])
qed

lemma rejects_line_terminator:
  "x = CHR 0x0A \<or> x = CHR 0x0D \<Longrightarrow> rejects logPattarn x"
  using logPattarn_rejects by blast

section \<open>Properties of the cost parser\<close>

lemma digit_cases:
  "k < 10 \<Longrightarrow> k = 0 \<or> k = 1 \<or> k = 2 \<or> k = 3 \<or> k = 4 \<or> k = 5 \<or> k = 6 \<or> k = 7 \<or> k = 8 \<or> k = (9::nat)"
  by arith

lemma isdigit_nth: "k < 10 \<Longrightarrow> isdigit (''0123456789'' ! k)"
  unfolding isdigit_def by (rule nth_mem) simp

lemma digit_value_nth: "k < 10 \<Longrightarrow> digit_value (''0123456789'' ! k) = int k"
  by (drule digit_cases) (elim disjE; simp add: digit_value_def)

lemma isdigit_cases:
  assumes "isdigit c"
  shows "\<exists>k<10. c = ''0123456789'' ! k"
proof -
  from assms obtain i where i: "i < length ''0123456789''" and c: "''0123456789'' ! i = c"
    unfolding isdigit_def in_set_conv_nth by (elim exE conjE)
  from i have "i < 10" by simp
  with c[symmetric] show ?thesis by (intro exI conjI)
qed

lemma digit_value_nonneg: "isdigit c \<Longrightarrow> 0 \<le> digit_value c"
  by (auto dest!: isdigit_cases simp: digit_value_nth simp del: nth_Cons_numeral)

lemma isdigit_not_space: "isdigit c \<Longrightarrow> \<not> isspace c"
  by (drule isdigit_cases, elim exE conjE, drule digit_cases)
     (elim disjE; simp add: isspace_def)

lemma isdigit_not_sign: "isdigit c \<Longrightarrow> c \<noteq> CHR ''-'' \<and> c \<noteq> CHR ''+''"
  by (drule isdigit_cases, elim exE conjE, drule digit_cases)
     (elim disjE; simp)

lemma digits_value_snoc:
  "digits_value (ds @ [c]) = 10 * digits_value ds + digit_value c"
  by (simp add: digits_value_def)

lemma digits_value_nonneg: "\<forall>c\<in>set ds. isdigit c \<Longrightarrow> 0 \<le> digits_value ds"
  by (induction ds rule: rev_induct) (simp_all add: digits_value_snoc digit_value_nonneg digits_value_def)

text \<open>\<open>stoll\<close> on a string of digits only.\<close>

lemma stoll_digits:
  assumes "\<forall>c\<in>set ds. isdigit c"
  shows "stoll ds =
     (if ds = [] then Inl invalid_argument
      else if 2 ^ 63 - 1 < digits_value ds then Inl out_of_range
      else Inr (word_of_int (digits_value ds)))"
proof (cases ds)
  case Nil
  then show ?thesis by (simp add: stoll_def)
next
  case (Cons c cs)
  with assms have c: "isdigit c" by simp
  have 1: "dropWhile isspace ds = ds" using Cons isdigit_not_space[OF c] by simp
  have 2: "takeWhile isdigit ds = ds" using assms by (simp add: takeWhile_eq_all_conv)
  have 3: "0 \<le> digits_value ds" using assms by (rule digits_value_nonneg)
  have 4: "(case ds of [] \<Rightarrow> (False, ds)
            | c # cs \<Rightarrow> if c = CHR ''-'' then (True, cs)
                       else if c = CHR ''+'' then (False, cs) else (False, ds)) = (False, ds)"
    using isdigit_not_sign[OF c] unfolding Cons by simp
  have 5: "ds \<noteq> []" using Cons by simp
  show ?thesis unfolding stoll_def Let_def 1 4 using 3 5 by (simp add: 2)
qed

lemma decimal_digits: "\<forall>c\<in>set (decimal n). isdigit c"
  by (induction n rule: decimal.induct) (subst decimal.simps, simp add: isdigit_nth)

lemma decimal_not_Nil: "decimal n \<noteq> []"
  by (subst decimal.simps) simp

lemma digits_value_decimal: "digits_value (decimal n) = int n"
proof (induction n rule: decimal.induct)
  case (1 n)
  show ?case
  proof (cases "n < 10")
    case True
    then show ?thesis
      by (subst decimal.simps) (simp add: digits_value_def digit_value_nth)
  next
    case False
    have "digits_value (decimal n) = 10 * int (n div 10) + int (n mod 10)"
      using False 1[OF False]
      by (subst decimal.simps) (simp add: digits_value_snoc digit_value_nth)
    then show ?thesis by (simp add: zdiv_int zmod_int)
  qed
qed

lemma stoll_decimal:
  assumes "n < 2 ^ 63"
  shows "stoll (decimal n) = Inr (of_nat n)"
proof -
  from assms have "int n < 2 ^ 63" by (metis of_nat_less_iff of_nat_numeral of_nat_power)
  then show ?thesis
    by (simp add: stoll_digits[OF decimal_digits] decimal_not_Nil digits_value_decimal)
qed

lemma digits_value_zeros:
  "digits_value (replicate z CHR ''0'' @ ds) = digits_value ds"
  by (induction z) (simp_all add: digits_value_def digit_value_def)

lemma stoll_zeros_decimal:
  assumes "n < 2 ^ 63"
  shows "stoll (replicate z CHR ''0'' @ decimal n) = Inr (of_nat n)"
proof -
  from assms have n: "int n < 2 ^ 63" by (metis of_nat_less_iff of_nat_numeral of_nat_power)
  have "isdigit CHR ''0''" by (simp add: isdigit_def)
  then have d: "\<forall>c\<in>set (replicate z CHR ''0'' @ decimal n). isdigit c"
    using decimal_digits[of n] by auto
  show ?thesis
    using n by (simp add: stoll_digits[OF d] decimal_not_Nil digits_value_zeros digits_value_decimal)
qed

lemma cost_token_digits:
  assumes "set costTok \<subseteq> set ''0123456789,''"
  shows "\<forall>c\<in>set (erase_0_1 (remove_commas costTok)). isdigit c"
proof
  fix c assume "c \<in> set (erase_0_1 (remove_commas costTok))"
  then have "c \<in> set (remove_commas costTok)"
    unfolding erase_0_1_def by (rule in_set_dropD)
  then have "c \<in> set costTok" "c \<noteq> CHR '',''" unfolding remove_commas_def by simp_all
  with assms have "c \<in> set ''0123456789,''" by (simp only: subset_iff)
  with \<open>c \<noteq> CHR '',''\<close> show "isdigit c" unfolding isdigit_def by simp
qed

lemma parse_cost_nonneg:
  assumes "set costTok \<subseteq> set ''0123456789,''"
  shows "0 \<le> sint (fst (parse_cost costTok))"
proof -
  let ?ds = "erase_0_1 (remove_commas costTok)"
  note d = cost_token_digits[OF assms]
  show ?thesis
  proof (cases "?ds = [] \<or> 2 ^ 63 - 1 < digits_value ?ds")
    case True
    then show ?thesis
      by (auto simp: parse_cost_def Let_def stoll_digits[OF d])
  next
    case False
    then have "digits_value ?ds < 2 ^ 63" by simp
    moreover have "0 \<le> digits_value ?ds" by (rule digits_value_nonneg[OF d])
    ultimately have "sint (word_of_int (digits_value ?ds) :: long_long) = digits_value ?ds"
      by (intro sint_of_int_long_long) simp_all
    with False \<open>0 \<le> digits_value ?ds\<close> show ?thesis
      by (simp add: parse_cost_def Let_def stoll_digits[OF d])
  qed
qed

lemma classify_cost: "cost (fst (classify (rarity, color, costTok))) = fst (parse_cost costTok)"
  by (simp add: classify_def Let_def split: prod.splits)

lemma ExtractJerryPurchases_cost_nonneg:
  assumes "p \<in> set (ExtractJerryPurchases logContent)"
  shows "0 \<le> sint (cost p)"
proof -
  from assms obtain rarity color costTok where
    m: "(rarity, color, costTok) \<in> set (raw_matches logContent)"
    and p: "p = fst (classify (rarity, color, costTok))"
    unfolding ExtractJerryPurchases_def by auto
  from raw_matches_shape[OF m] have "set costTok \<subseteq> set ''0123456789,''" by (elim conjE)
  from parse_cost_nonneg[OF this] show ?thesis unfolding p classify_cost .
qed

lemma all_purchases_cost_nonneg:
  "p \<in> set (all_purchases contents) \<Longrightarrow> 0 \<le> sint (cost p)"
  unfolding all_purchases_def
  by (auto dest: ExtractJerryPurchases_cost_nonneg split: if_splits)

section \<open>Properties of the \<open>double\<close> arithmetic\<close>

lemma bit_length_bounds:
  "0 < n \<Longrightarrow> 2 ^ (bit_length n - 1) \<le> n \<and> n < 2 ^ bit_length n"
proof (induction n rule: bit_length.induct)
  case (1 n)
  from \<open>0 < n\<close> have bl: "bit_length n = Suc (bit_length (n div 2))"
    by (subst bit_length.simps) simp
  show ?case
  proof (cases "n div 2 = 0")
    case True
    with \<open>0 < n\<close> have "n = 1" by presburger
    then show ?thesis unfolding bl by (simp add: bit_length.simps[of 0])
  next
    case False
    with \<open>0 < n\<close> have pos: "0 < n div 2" by presburger
    from 1(1)[OF _ pos] \<open>0 < n\<close>
    have lo: "2 ^ (bit_length (n div 2) - 1) \<le> n div 2"
      and hi: "n div 2 < 2 ^ bit_length (n div 2)" by simp_all
    from pos have "0 < bit_length (n div 2)" by (subst bit_length.simps) simp
    then have "(2::int) ^ bit_length (n div 2) = 2 * 2 ^ (bit_length (n div 2) - 1)"
      by (cases "bit_length (n div 2)") simp_all
    with lo have "2 ^ bit_length (n div 2) \<le> 2 * (n div 2)" by simp
    also have "\<dots> \<le> n" by presburger
    finally have 1: "2 ^ (bit_length n - 1) \<le> n" unfolding bl by simp
    from hi have "n div 2 + 1 \<le> 2 ^ bit_length (n div 2)" by simp
    then have "2 * (n div 2) + 2 \<le> 2 * 2 ^ bit_length (n div 2)" by simp
    moreover have "n < 2 * (n div 2) + 2" by presburger
    ultimately have 2: "n < 2 ^ bit_length n" unfolding bl by simp
    from 1 2 show ?thesis ..
  qed
qed

lemma powi_2_mono: "a \<le> b \<Longrightarrow> (2::rat) powi a \<le> 2 powi b"
  by (rule power_int_increasing) simp_all

lemma powi_2_strict_mono: "a < b \<Longrightarrow> (2::rat) powi a < 2 powi b"
  by (rule power_int_strict_increasing) simp_all

lemma powi_2_pos: "0 < (2::rat) powi a"
  by simp

lemma powi_2_add: "(2::rat) powi (a + b) = 2 powi a * 2 powi b"
  by (rule power_int_add) simp

lemma powi_2_diff: "(2::rat) powi (a - b) = 2 powi a / 2 powi b"
  by (rule power_int_diff) simp

text \<open>\<open>ilog2\<close> is the binary exponent.\<close>

lemma ilog2_bounds:
  assumes "0 < x"
  shows "2 powi (ilog2 x) \<le> x" and "x < 2 powi (ilog2 x + 1)"
proof -
  obtain n d where q: "quotient_of x = (n, d)" by (cases "quotient_of x")
  from quotient_of_denom_pos[OF q] have d: "0 < d" .
  from quotient_of_div[OF q] have x: "x = of_int n / of_int d" .
  from assms d have n: "0 < n" unfolding x by (simp add: zero_less_divide_iff)
  let ?k = "int (bit_length n) - int (bit_length d)"
  from bit_length_bounds[OF n] have n1: "(2::rat) ^ (bit_length n - 1) \<le> of_int n"
    and n2: "of_int n < (2::rat) ^ bit_length n"
    by (metis of_int_le_iff of_int_numeral of_int_power, metis of_int_less_iff of_int_numeral of_int_power)
  from bit_length_bounds[OF d] have d1: "(2::rat) ^ (bit_length d - 1) \<le> of_int d"
    and d2: "of_int d < (2::rat) ^ bit_length d"
    by (metis of_int_le_iff of_int_numeral of_int_power, metis of_int_less_iff of_int_numeral of_int_power)
  from n have bn: "0 < bit_length n" by (subst bit_length.simps) simp
  from d have bd: "0 < bit_length d" by (subst bit_length.simps) simp
  have dpos: "(0::rat) < of_int d" using d by simp
  have upper: "x < 2 powi (?k + 1)"
  proof -
    have "x * of_int d = of_int n" unfolding x using dpos by simp
    also have "\<dots> < 2 ^ bit_length n" by (rule n2)
    also have "\<dots> = 2 powi (?k + 1) * 2 ^ (bit_length d - 1)"
    proof -
      have "(2::rat) ^ bit_length n = 2 powi (int (bit_length n))" by simp
      also have "int (bit_length n) = (?k + 1) + int (bit_length d - 1)" using bd by simp
      also have "(2::rat) powi \<dots> = 2 powi (?k + 1) * 2 powi (int (bit_length d - 1))"
        by (rule powi_2_add)
      finally show ?thesis by simp
    qed
    also have "\<dots> \<le> 2 powi (?k + 1) * of_int d"
      using d1 by (intro mult_left_mono) simp_all
    finally show ?thesis using dpos by simp
  qed
  have lower: "(2::rat) powi (?k - 1) < x"
  proof -
    have "(2::rat) powi (?k - 1) * of_int d < 2 powi (?k - 1) * 2 ^ bit_length d"
      using d2 by (intro mult_strict_left_mono) simp_all
    also have "\<dots> = 2 ^ (bit_length n - 1)"
    proof -
      have "(2::rat) powi (?k - 1) * 2 ^ bit_length d
          = 2 powi (?k - 1) * 2 powi (int (bit_length d))" by simp
      also have "\<dots> = 2 powi ((?k - 1) + int (bit_length d))" by (rule powi_2_add[symmetric])
      also have "(?k - 1) + int (bit_length d) = int (bit_length n - 1)" using bn by simp
      finally show ?thesis by simp
    qed
    also have "\<dots> \<le> of_int n" by (rule n1)
    also have "\<dots> = x * of_int d" unfolding x using dpos by simp
    finally show ?thesis using dpos by simp
  qed
  have e: "ilog2 x = (if 2 powi ?k \<le> x then ?k else ?k - 1)"
    unfolding ilog2_def q by (simp add: Let_def)
  show "2 powi (ilog2 x) \<le> x" unfolding e using lower by simp
  show "x < 2 powi (ilog2 x + 1)" unfolding e using upper by (simp add: not_le)
qed

lemma ilog2_unique:
  assumes "2 powi e \<le> x" and "x < 2 powi (e + 1)"
  shows "ilog2 x = e"
proof -
  have pos: "0 < x" by (rule less_le_trans[OF powi_2_pos assms(1)])
  note b = ilog2_bounds[OF pos]
  have "ilog2 x < e + 1"
  proof (rule ccontr)
    assume "\<not> ilog2 x < e + 1"
    then have "2 powi (e + 1) \<le> (2::rat) powi ilog2 x" by (intro powi_2_mono) simp
    with b(1) assms(2) show False by simp
  qed
  moreover have "e < ilog2 x + 1"
  proof (rule ccontr)
    assume "\<not> e < ilog2 x + 1"
    then have "2 powi (ilog2 x + 1) \<le> (2::rat) powi e" by (intro powi_2_mono) simp
    with b(2) assms(1) show False by simp
  qed
  ultimately show ?thesis by simp
qed

subsection \<open>Rounding\<close>

lemma round_half_even_of_int [simp]: "round_half_even (of_int m) = m"
  by (simp add: round_half_even_def)

lemma round_half_even_ge: "of_int m \<le> x \<Longrightarrow> m \<le> round_half_even x"
proof -
  assume "of_int m \<le> x"
  then have "m \<le> \<lfloor>x\<rfloor>" by (simp add: le_floor_iff)
  then show ?thesis by (auto simp: round_half_even_def Let_def)
qed

lemma round_half_even_less:
  assumes "x < of_int m - 1 / 2"
  shows "round_half_even x < m"
proof -
  from assms have "x < of_int m" by simp
  then have f: "\<lfloor>x\<rfloor> < m" by (simp add: floor_less_iff)
  show ?thesis
  proof (cases "\<lfloor>x\<rfloor> = m - 1")
    case True
    with assms have "x - of_int \<lfloor>x\<rfloor> < 1 / 2" by simp
    then show ?thesis using f by (simp add: round_half_even_def Let_def)
  next
    case False
    with f have "\<lfloor>x\<rfloor> + 1 < m" by simp
    then show ?thesis by (auto simp: round_half_even_def Let_def)
  qed
qed

lemma round_half_even_minus: "round_half_even (- x) = - round_half_even x"
proof (cases "x = of_int \<lfloor>x\<rfloor>")
  case True
  then obtain m where "x = of_int m" ..
  then have "- x = of_int (- m)" by simp
  then show ?thesis unfolding \<open>x = of_int m\<close> by (simp only: round_half_even_of_int)
next
  case False
  then have nz: "x \<notin> \<int>" by (metis Ints_cases of_int_floor_cancel Ints_of_int)
  have fl: "\<lfloor>- x\<rfloor> = - \<lfloor>x\<rfloor> - 1"
    using False by (simp add: floor_minus ceiling_altdef)
  have d: "0 < x - of_int \<lfloor>x\<rfloor>" using False by (simp add: less_le)
  have ev: "even (- \<lfloor>x\<rfloor> - 1) \<longleftrightarrow> odd \<lfloor>x\<rfloor>" by simp
  show ?thesis
    unfolding round_half_even_def Let_def fl ev using d
    by (auto simp: field_simps)
qed

lemma round_double_minus: "round_double (- x) = - round_double x"
  by (simp add: round_double_def Let_def round_half_even_minus)

lemma powi_2_neg_nat: "(2::rat) powi (- int k) = 1 / 2 ^ k"
  by (simp add: power_int_minus divide_inverse)

text \<open>Integers below \<open>2^53\<close> are doubles.\<close>

lemma round_double_of_int_pos:
  assumes "0 < m" and "m < 2 ^ 53"
  shows "round_double (of_int m) = of_int m"
proof -
  let ?x = "of_int m :: rat"
  from assms(1) have pos: "0 < ?x" and one: "1 \<le> ?x" by simp_all
  from assms(2) have lt: "?x < 2 ^ 53"
    by (metis of_int_less_iff of_int_numeral of_int_power)
  note b = ilog2_bounds[OF pos]
  have e0: "0 \<le> ilog2 ?x"
  proof (rule ccontr)
    assume "\<not> 0 \<le> ilog2 ?x"
    then have "(2::rat) powi (ilog2 ?x + 1) \<le> 2 powi 0" by (intro powi_2_mono) simp
    with b(2) one show False by simp
  qed
  have e52: "ilog2 ?x \<le> 52"
  proof (rule ccontr)
    assume "\<not> ilog2 ?x \<le> 52"
    then have "(2::rat) powi 53 \<le> 2 powi ilog2 ?x" by (intro powi_2_mono) simp
    with b(1) lt show False by simp
  qed
  define k where "k = nat (52 - ilog2 ?x)"
  have k: "ilog2 ?x - 52 = - int k" using e52 by (simp add: k_def)
  have u: "(2::rat) powi (max (ilog2 \<bar>?x\<bar>) (- 1022) - 52) = 1 / 2 ^ k"
    using e0 pos by (simp add: max_def k powi_2_neg_nat)
  have "?x / (1 / 2 ^ k) = of_int (m * 2 ^ k)" by simp
  then have "round_half_even (?x / (1 / 2 ^ k)) = m * 2 ^ k"
    by (simp only: round_half_even_of_int)
  then show ?thesis
    using pos unfolding round_double_def Let_def u by simp
qed

lemma round_double_of_int:
  assumes "\<bar>m\<bar> < 2 ^ 53"
  shows "round_double (of_int m) = of_int m"
proof -
  consider "m = 0" | "0 < m" | "m < 0" by linarith
  then show ?thesis
  proof cases
    case 1
    then show ?thesis by (simp add: round_double_def)
  next
    case 2
    with assms show ?thesis by (intro round_double_of_int_pos) simp_all
  next
    case 3
    with assms have "round_double (of_int (- m)) = of_int (- m)"
      by (intro round_double_of_int_pos) simp_all
    then show ?thesis using round_double_minus[of "of_int m"] by simp
  qed
qed

text \<open>The rounded quotient of two integers never reaches the next integer: the
  quotient \<open>a / b\<close> is at least \<open>1 / b\<close> below it, which is more than half the spacing of
  the doubles there as long as \<open>a < 2^53\<close>.\<close>

lemma round_double_quotient:
  assumes a: "0 < a" "a < 2 ^ 53" and b: "0 < b" "b < 2 ^ 31"
  shows "of_int (a div b) \<le> round_double (of_int a / of_int b)"
    and "round_double (of_int a / of_int b) < of_int (a div b) + 1"
proof -
  let ?q = "of_int a / of_int b :: rat"
  let ?k = "a div b"
  have bpos: "(0::rat) < of_int b" using b(1) by simp
  have qpos: "0 < ?q" using a(1) b(1) by simp
  have fl: "\<lfloor>?q\<rfloor> = ?k" by (rule floor_divide_of_int_eq)
  have k_le: "of_int ?k \<le> ?q" unfolding fl[symmetric] by (rule of_int_floor_le)
  \<comment> \<open>the distance to the next integer\<close>
  have "a < (?k + 1) * b"
    using b(1) by (metis add.commute div_mult_mod_eq distrib_right mult.commute
        mult_1 add_strict_left_mono pos_mod_bound)
  then have "a + 1 \<le> (?k + 1) * b" by simp
  then have "of_int a + 1 \<le> (of_int (?k + 1) * of_int b :: rat)"
    by (metis of_int_1 of_int_add of_int_le_iff of_int_mult)
  then have gap: "?q + 1 / of_int b \<le> of_int (?k + 1)"
    using bpos by (simp add: field_simps)
  \<comment> \<open>the exponent\<close>
  note e = ilog2_bounds[OF qpos]
  let ?e = "ilog2 ?q"
  have "?q \<le> of_int a" using a(1) b(1) by (simp add: field_simps mult_le_cancel_left1)
  also have "(of_int a :: rat) < 2 ^ 53" using a(2)
    by (metis of_int_less_iff of_int_numeral of_int_power)
  finally have q53: "?q < 2 ^ 53" .
  have e52: "?e \<le> 52"
  proof (rule ccontr)
    assume "\<not> ?e \<le> 52"
    then have "(2::rat) powi 53 \<le> 2 powi ?e" by (intro powi_2_mono) simp
    with e(1) q53 show False by simp
  qed
  have "(of_int b :: rat) < 2 ^ 31" using b(2)
    by (metis of_int_less_iff of_int_numeral of_int_power)
  then have "1 / 2 ^ 31 < 1 / (of_int b :: rat)" using bpos by (simp add: field_simps)
  also have "1 / (of_int b :: rat) \<le> ?q" using a(1) bpos by (simp add: field_simps)
  finally have qlow: "1 / 2 ^ 31 < ?q" .
  have elow: "- 32 \<le> ?e"
  proof (rule ccontr)
    assume "\<not> - 32 \<le> ?e"
    then have "(2::rat) powi (?e + 1) \<le> 2 powi (- 31)" by (intro powi_2_mono) simp
    with e(2) have "?q < 2 powi (- 31)" by (rule less_le_trans)
    also have "(2::rat) powi (- 31) = 1 / 2 ^ 31" by (simp add: power_int_minus_divide)
    finally show False using qlow by (simp only: less_asym)
  qed
  define n where "n = nat (52 - ?e)"
  have n: "?e - 52 = - int n" using e52 by (simp add: n_def)
  have absq: "\<bar>?q\<bar> = ?q" using qpos by (rule abs_of_pos)
  have mx: "max ?e (- 1022) = ?e" using elow by simp
  have u: "(2::rat) powi (max (ilog2 \<bar>?q\<bar>) (- 1022) - 52) = 1 / 2 ^ n"
    unfolding absq mx n by (rule powi_2_neg_nat)
  have rd: "round_double ?q = of_int (round_half_even (?q * 2 ^ n)) / 2 ^ n"
    using a(1) b(1) unfolding round_double_def Let_def u by simp
  \<comment> \<open>\<open>b\<close> is below \<open>2^(53 - e)\<close>\<close>
  have "of_int b * 2 powi ?e \<le> of_int b * ?q" using e(1) bpos by (intro mult_left_mono) simp_all
  also have "\<dots> = of_int a" using bpos by simp
  also have "(of_int a :: rat) < 2 ^ 53" using a(2)
    by (metis of_int_less_iff of_int_numeral of_int_power)
  finally have A: "of_int b * 2 powi ?e < (2::rat) ^ 53" .
  have B: "(2::rat) ^ 53 = 2 powi (?e + 1) * 2 ^ n"
  proof -
    have s53: "(?e + 1) + int n = 53" using e52 by (simp add: n_def)
    have "(2::rat) powi (?e + 1) * 2 ^ n = 2 powi (?e + 1) * 2 powi (int n)" by simp
    also have "\<dots> = 2 powi ((?e + 1) + int n)" by (rule powi_2_add[symmetric])
    also have "\<dots> = 2 powi 53" unfolding s53 ..
    also have "\<dots> = 2 ^ 53" by simp
    finally show ?thesis by (rule sym)
  qed
  have C: "(2::rat) powi (?e + 1) = 2 powi ?e * 2"
    by (subst powi_2_add) simp
  have "of_int b * 2 powi ?e < 2 powi ?e * 2 * (2::rat) ^ n"
    using A unfolding B C .
  also have "\<dots> = (2 * (2::rat) ^ n) * 2 powi ?e" by (simp only: ac_simps)
  finally have bsmall: "of_int b < 2 * (2::rat) ^ n"
    by (rule mult_right_less_imp_less) simp
  \<comment> \<open>lower bound\<close>
  let ?N = "round_half_even (?q * 2 ^ n)"
  have Ppos: "0 < (2::rat) ^ n" by simp
  have "of_int ?k * 2 ^ n \<le> ?q * 2 ^ n" using k_le by (rule mult_right_mono) simp
  then have "of_int (?k * 2 ^ n) \<le> ?q * 2 ^ n"
    by (simp only: of_int_mult of_int_power of_int_numeral)
  from round_half_even_ge[OF this] have lo: "?k * 2 ^ n \<le> ?N" .
  \<comment> \<open>upper bound\<close>
  have half: "1 / 2 < (1 / of_int b) * (2::rat) ^ n"
    using bsmall bpos by (simp add: field_simps)
  from gap have "(?q + 1 / of_int b) * 2 ^ n \<le> of_int (?k + 1) * 2 ^ n"
    by (rule mult_right_mono) simp
  then have X: "?q * 2 ^ n + (1 / of_int b) * 2 ^ n \<le> of_int (?k + 1) * 2 ^ n"
    by (simp only: distrib_right)
  have K: "(of_int ((?k + 1) * 2 ^ n) :: rat) = of_int (?k + 1) * 2 ^ n"
    by (simp only: of_int_mult of_int_power of_int_numeral)
  have "?q * 2 ^ n < of_int ((?k + 1) * 2 ^ n) - 1 / 2"
    unfolding K using X half by linarith
  from round_half_even_less[OF this] have hi: "?N < (?k + 1) * 2 ^ n" .
  from lo have "(of_int (?k * 2 ^ n) :: rat) \<le> of_int ?N"
    by (simp only: of_int_le_iff)
  then have "of_int ?k * 2 ^ n \<le> (of_int ?N :: rat)"
    by (simp only: of_int_mult of_int_power of_int_numeral)
  then show "of_int ?k \<le> round_double ?q"
    unfolding rd by (simp only: pos_le_divide_eq[OF Ppos])
  from hi have "(of_int ?N :: rat) < of_int ((?k + 1) * 2 ^ n)"
    by (simp only: of_int_less_iff)
  then have "(of_int ?N :: rat) < (of_int ?k + 1) * 2 ^ n"
    by (simp only: of_int_mult of_int_power of_int_numeral of_int_add of_int_1)
  then show "round_double ?q < of_int ?k + 1"
    unfolding rd by (simp only: pos_divide_less_eq[OF Ppos])
qed

lemma truncate_round_double_quotient:
  assumes a: "0 \<le> a" "a < 2 ^ 53" and b: "0 < b" "b < 2 ^ 31"
  shows "truncate_rat (round_double (of_int a / of_int b)) = a div b"
    and "truncate_rat (round_double (of_int (- a) / of_int b)) = - (a div b)"
proof -
  let ?r = "round_double (of_int a / of_int b)"
  have r: "of_int (a div b) \<le> ?r \<and> ?r < of_int (a div b) + 1"
  proof (cases "a = 0")
    case True
    then show ?thesis by (simp add: round_double_def)
  next
    case False
    with a(1) have "0 < a" by simp
    from round_double_quotient[OF this a(2) b] show ?thesis ..
  qed
  then have fl: "\<lfloor>?r\<rfloor> = a div b" by (simp add: floor_unique)
  have "0 \<le> a div b" using a(1) b(1) by (simp add: pos_imp_zdiv_nonneg_iff)
  with r have nonneg: "0 \<le> ?r" by (meson of_int_0_le_iff order_trans)
  then show "truncate_rat ?r = a div b" unfolding truncate_rat_def using fl by simp
  have m: "round_double (of_int (- a) / of_int b) = - ?r"
    using round_double_minus[of "of_int a / of_int b"] by simp
  show "truncate_rat (round_double (of_int (- a) / of_int b)) = - (a div b)"
    unfolding m truncate_rat_def using nonneg fl by (auto simp: ceiling_def)
qed

lemma sdiv_pos_divisor:
  "0 < b \<Longrightarrow> (a::int) sdiv b = (if 0 \<le> a then a div b else - ((- a) div b))"
  by (simp add: signed_divide_int_def sgn_if)

lemma sint_c_int_bounds: "- (2 ^ 31) \<le> sint (b :: c_int)" "sint (b :: c_int) < 2 ^ 31"
  using sint_ge[of b] sint_lt[of b] by simp_all

text \<open>Lines 376-380 for an adjusted cost of magnitude below \<open>2^53\<close>.\<close>

lemma avg_price_per_green_exact:
  assumes "\<bar>sint adj\<bar> < 2 ^ 53" and "0 < sint tet"
  shows "avg_price_per_green adj tet = Some (word_of_int (sint adj sdiv sint tet))"
    and "sint (word_of_int (sint adj sdiv sint tet) :: long_long) = sint adj sdiv sint tet"
proof -
  let ?a = "sint adj" and ?b = "sint tet"
  have b31: "?b < 2 ^ 31" by (rule sint_c_int_bounds)
  with assms(2) have "\<bar>?b\<bar> < 2 ^ 53" by simp
  then have db: "double_of_int tet = of_int ?b"
    unfolding double_of_int_def by (rule round_double_of_int)
  have da: "double_of_long_long adj = of_int ?a"
    unfolding double_of_long_long_def using assms(1) by (rule round_double_of_int)
  have t: "truncate_rat (round_double (of_int ?a / of_int ?b)) = ?a sdiv ?b"
  proof (cases "0 \<le> ?a")
    case True
    with assms(1) have "?a < 2 ^ 53" by simp
    from truncate_round_double_quotient(1)[OF True this assms(2) b31]
    show ?thesis using True by (simp add: sdiv_pos_divisor[OF assms(2)])
  next
    case False
    then have "0 \<le> - ?a" by simp
    moreover from assms(1) False have "- ?a < 2 ^ 53" by simp
    ultimately have "truncate_rat (round_double (of_int (- (- ?a)) / of_int ?b)) = - ((- ?a) div ?b)"
      using assms(2) b31 by (rule truncate_round_double_quotient(2))
    then show ?thesis using False by (simp add: sdiv_pos_divisor[OF assms(2)])
  qed
  have dv: "0 \<le> x div ?b \<and> x div ?b \<le> x" if "0 \<le> x" for x
  proof -
    have "x div ?b \<le> x div 1" using that assms(2) by (intro zdiv_mono2) simp_all
    moreover have "0 \<le> x div ?b" using that assms(2) by (simp add: pos_imp_zdiv_nonneg_iff)
    ultimately show ?thesis by simp
  qed
  have "\<bar>?a sdiv ?b\<bar> \<le> \<bar>?a\<bar>"
  proof (cases "0 \<le> ?a")
    case True
    with dv[OF True] show ?thesis by (simp add: sdiv_pos_divisor[OF assms(2)])
  next
    case False
    then have "0 \<le> - ?a" by simp
    from dv[OF this] False show ?thesis by (simp add: sdiv_pos_divisor[OF assms(2)])
  qed
  with assms(1) have r: "- (2 ^ 63) \<le> ?a sdiv ?b" "?a sdiv ?b < 2 ^ 63" by simp_all
  have val: "double_div (double_of_long_long adj) (double_of_int tet)
      = round_double (of_int ?a / of_int ?b)"
    unfolding double_div_def da db ..
  have ll: "long_long_of_double (round_double (of_int ?a / of_int ?b))
      = Some (word_of_int (?a sdiv ?b))"
    unfolding long_long_of_double_def Let_def t using r by simp
  show "avg_price_per_green adj tet = Some (word_of_int (?a sdiv ?b))"
    unfolding avg_price_per_green_def val ll using assms(2) by simp
  from r show "sint (word_of_int (?a sdiv ?b) :: long_long) = ?a sdiv ?b"
    by (rule sint_of_int_long_long)
qed

section \<open>The claims\<close>

text \<open>
  Claim C1, as amended. The cost of a raw match is obtained by removing every comma from
  the cost token, then removing the first remaining character whatever it is, a digit or
  not (\<open>costStr.erase(0, 1)\<close> has no condition), then parsing the rest as a decimal
  integer: when the token without its commas is any character \<open>c\<close> followed by the
  decimal numeral of \<open>n < 2^63\<close> (leading zeros allowed), the cost is \<open>n\<close> and nothing is
  written to \<open>std::cerr\<close>. The witness has the two tokens "\<section>12,500" (with the section
  sign as the one byte 0xA7) and "612,500", both of cost 12500, and the comma-free
  "1234567" parsing to 1234567.

  The claim as stated, which removes a leading character only when it is not a digit,
  fails: the token "1,234,567" has the cost 234567.
\<close>

theorem C1_cost_parsing:
  assumes "remove_commas costTok = c # replicate z CHR ''0'' @ decimal n" and "n < 2 ^ 63"
  shows "classify (rarity, color, costTok) =
     (\<lparr>type = jerry_type color,
       recombobulated = is_recombobulated (jerry_type color) rarity,
       cost = of_nat n\<rparr>, [])"
  by (simp add: classify_def parse_cost_def erase_0_1_def Let_def assms(1)
      stoll_zeros_decimal[OF assms(2)])

theorem C1_witness:
  "classify (''9'', ''Green'', CHR 0xA7 # ''12,500'') =
     (\<lparr>type = GREEN, recombobulated = True, cost = 12500\<rparr>, [])
   \<and> classify (''9'', ''Green'', ''612,500'') =
     (\<lparr>type = GREEN, recombobulated = True, cost = 12500\<rparr>, [])
   \<and> remove_commas ''1,234,567'' = ''1234567''
   \<and> stoll ''1234567'' = Inr 1234567"
proof -
  have g: "jerry_type ''Green'' = GREEN" "is_recombobulated GREEN ''9''"
    by (simp_all add: jerry_type_def is_recombobulated_def)
  have n: "(12500::nat) < 2 ^ 63" by simp
  have d: "decimal 12500 = ''12500''" by (simp add: decimal.simps)
  have a: "remove_commas (CHR 0xA7 # ''12,500'') = CHR 0xA7 # replicate 0 CHR ''0'' @ decimal 12500"
    unfolding d by (simp add: remove_commas_def)
  have b: "remove_commas ''612,500'' = CHR ''6'' # replicate 0 CHR ''0'' @ decimal 12500"
    unfolding d by (simp add: remove_commas_def)
  have 1: "classify (''9'', ''Green'', CHR 0xA7 # ''12,500'') =
     (\<lparr>type = GREEN, recombobulated = True, cost = 12500\<rparr>, [])"
    using C1_cost_parsing[OF a n, of "''9''" "''Green''"] g by simp
  have 2: "classify (''9'', ''Green'', ''612,500'') =
     (\<lparr>type = GREEN, recombobulated = True, cost = 12500\<rparr>, [])"
    using C1_cost_parsing[OF b n, of "''9''" "''Green''"] g by simp
  have 3: "remove_commas ''1,234,567'' = ''1234567''" by code_simp
  have 4: "stoll ''1234567'' = Inr 1234567" by code_simp
  from 1 2 3 4 show ?thesis by (intro conjI)
qed

theorem C1_counterexample:
  "cost (fst (classify (''9'', ''Green'', ''1,234,567''))) = 234567
   \<and> spec_cost ''1,234,567'' = 1234567"
  by code_simp

text \<open>
  Claim C2, as amended. Whenever \<open>adjustedCost\<close> has a magnitude below \<open>2^53\<close> (so that
  its conversion to \<open>double\<close> is exact): for \<open>totalGreenEquivalent > 0\<close> the average is
  the quotient \<open>adjustedCost / totalGreenEquivalent\<close> rounded towards zero (\<open>sdiv\<close>), the
  division in \<open>double\<close> and the conversion back never reaching the next integer; that is
  the floor of the quotient when \<open>adjustedCost\<close> is not negative; and the average is 0
  when \<open>totalGreenEquivalent\<close> is not positive, the guard of line 377 keeping the
  division from a zero divisor.

  The claim as stated, floor semantics also for a negative \<open>adjustedCost\<close>, fails: for
  \<open>adjustedCost = -7\<close> and \<open>totalGreenEquivalent = 2\<close> the code gives \<open>-3\<close>, the floor
  is \<open>-4\<close>.
\<close>

theorem C2_average_truncates:
  assumes "\<bar>sint (adjustedCost (aggregate ps price))\<bar> < 2 ^ 53"
  shows "(0 < sint (totalGreenEquivalent (aggregate ps price)) \<longrightarrow>
            avgPricePerGreen (aggregate ps price)
              = Some (word_of_int (sint (adjustedCost (aggregate ps price))
                                   sdiv sint (totalGreenEquivalent (aggregate ps price))))
          \<and> sint (word_of_int (sint (adjustedCost (aggregate ps price))
                  sdiv sint (totalGreenEquivalent (aggregate ps price))) :: long_long)
              = sint (adjustedCost (aggregate ps price))
                  sdiv sint (totalGreenEquivalent (aggregate ps price)))
   \<and> (0 < sint (totalGreenEquivalent (aggregate ps price))
        \<and> 0 \<le> sint (adjustedCost (aggregate ps price)) \<longrightarrow>
            avgPricePerGreen (aggregate ps price)
              = Some (word_of_int (sint (adjustedCost (aggregate ps price))
                                   div sint (totalGreenEquivalent (aggregate ps price)))))
   \<and> (\<not> 0 < sint (totalGreenEquivalent (aggregate ps price)) \<longrightarrow>
            avgPricePerGreen (aggregate ps price) = Some 0)"
proof -
  let ?S = "aggregate ps price"
  have avg: "avgPricePerGreen ?S = avg_price_per_green (adjustedCost ?S) (totalGreenEquivalent ?S)"
    by (simp add: aggregate_fields)
  note ex = avg_price_per_green_exact[OF assms]
  have 1: "avgPricePerGreen ?S
      = Some (word_of_int (sint (adjustedCost ?S) sdiv sint (totalGreenEquivalent ?S)))
    \<and> sint (word_of_int (sint (adjustedCost ?S) sdiv sint (totalGreenEquivalent ?S)) :: long_long)
      = sint (adjustedCost ?S) sdiv sint (totalGreenEquivalent ?S)"
    if "0 < sint (totalGreenEquivalent ?S)"
    unfolding avg using ex[OF that] by (intro conjI)
  have 2: "avgPricePerGreen ?S
      = Some (word_of_int (sint (adjustedCost ?S) div sint (totalGreenEquivalent ?S)))"
    if "0 < sint (totalGreenEquivalent ?S)" "0 \<le> sint (adjustedCost ?S)"
    using 1[OF that(1)] that by (simp add: sdiv_pos_divisor)
  have 3: "avgPricePerGreen ?S = Some 0" if "\<not> 0 < sint (totalGreenEquivalent ?S)"
    unfolding avg avg_price_per_green_def using that by simp
  from 1 2 3 show ?thesis by blast
qed

theorem C2_witness:
  "\<bar>sint (adjustedCost
       (aggregate [\<lparr>type = GREEN, recombobulated = False, cost = 100\<rparr>,
                   \<lparr>type = BLUE, recombobulated = True, cost = 500\<rparr>] 50))\<bar> < 2 ^ 53
   \<and> 0 < sint (totalGreenEquivalent
       (aggregate [\<lparr>type = GREEN, recombobulated = False, cost = 100\<rparr>,
                   \<lparr>type = BLUE, recombobulated = True, cost = 500\<rparr>] 50))
   \<and> avgPricePerGreen
       (aggregate [\<lparr>type = GREEN, recombobulated = False, cost = 100\<rparr>,
                   \<lparr>type = BLUE, recombobulated = True, cost = 500\<rparr>] 50) = Some 91
   \<and> avgPricePerGreen (aggregate [] 50) = Some 0"
proof -
  let ?ps = "[\<lparr>type = GREEN, recombobulated = False, cost = 100\<rparr>,
              \<lparr>type = BLUE, recombobulated = True, cost = 500\<rparr>]"
  have a: "adjustedCost (aggregate ?ps 50) = 550" by code_simp
  have t: "totalGreenEquivalent (aggregate ?ps 50) = 6" by code_simp
  have h: "\<bar>sint (adjustedCost (aggregate ?ps 50))\<bar> < 2 ^ 53" unfolding a by simp
  have p: "0 < sint (totalGreenEquivalent (aggregate ?ps 50))" unfolding t by simp
  note inst = C2_average_truncates[OF h]
  have "0 < sint (totalGreenEquivalent (aggregate ?ps 50)) \<longrightarrow>
        avgPricePerGreen (aggregate ?ps 50)
          = Some (word_of_int (sint (adjustedCost (aggregate ?ps 50))
                               sdiv sint (totalGreenEquivalent (aggregate ?ps 50))))
      \<and> sint (word_of_int (sint (adjustedCost (aggregate ?ps 50))
              sdiv sint (totalGreenEquivalent (aggregate ?ps 50))) :: long_long)
          = sint (adjustedCost (aggregate ?ps 50))
              sdiv sint (totalGreenEquivalent (aggregate ?ps 50))"
    using inst by (elim conjE)
  with p have 1: "avgPricePerGreen (aggregate ?ps 50) = Some 91"
    unfolding a t by (simp add: signed_divide_int_def)
  have a0: "adjustedCost (aggregate [] 50) = 0" and t0: "totalGreenEquivalent (aggregate [] 50) = 0"
    by code_simp+
  have h0: "\<bar>sint (adjustedCost (aggregate [] 50))\<bar> < 2 ^ 53" unfolding a0 by simp
  note inst0 = C2_average_truncates[OF h0]
  have "\<not> 0 < sint (totalGreenEquivalent (aggregate [] 50)) \<longrightarrow>
      avgPricePerGreen (aggregate [] 50) = Some 0"
    using inst0 by (elim conjE)
  then have 2: "avgPricePerGreen (aggregate [] 50) = Some 0" unfolding t0 by simp
  from h p 1 2 show ?thesis by (intro conjI)
qed

theorem C2_counterexample:
  "adjustedCost (aggregate [\<lparr>type = GREEN, recombobulated = True, cost = 3\<rparr>,
                            \<lparr>type = GREEN, recombobulated = False, cost = 0\<rparr>] 10) = - 7
   \<and> totalGreenEquivalent
       (aggregate [\<lparr>type = GREEN, recombobulated = True, cost = 3\<rparr>,
                   \<lparr>type = GREEN, recombobulated = False, cost = 0\<rparr>] 10) = 2
   \<and> avgPricePerGreen
       (aggregate [\<lparr>type = GREEN, recombobulated = True, cost = 3\<rparr>,
                   \<lparr>type = GREEN, recombobulated = False, cost = 0\<rparr>] 10) = Some (- 3)
   \<and> (- 7 :: int) div 2 = - 4"
proof -
  let ?ps = "[\<lparr>type = GREEN, recombobulated = True, cost = 3\<rparr>,
              \<lparr>type = GREEN, recombobulated = False, cost = 0\<rparr>]"
  have 1: "adjustedCost (aggregate ?ps 10) = - 7" by code_simp
  have 2: "totalGreenEquivalent (aggregate ?ps 10) = 2" by code_simp
  have 3: "avgPricePerGreen (aggregate ?ps 10) = Some (- 3)" by code_simp
  have 4: "(- 7 :: int) div 2 = - 4" by simp
  from 1 2 3 4 show ?thesis by (intro conjI)
qed

text \<open>
  Claim C3. For every purchase list, \<open>totalGreenEquivalent\<close> is the dot product of the
  per-tier counts (plain and recombobulated counted alike) with the weights 1, 5, 25 and
  125 for green, blue, purple and golden; each per-tier count is the number of purchases
  of that type, and purchases of type \<open>UNKNOWN\<close> contribute nothing. The equalities hold
  in the 32-bit arithmetic of the counters; for fewer than \<open>2^31 / 125\<close> purchases the
  value read as an integer is the dot product of the integer counts.
\<close>

theorem C3_tier_equivalent_total:
  "totalGreenEquivalent (aggregate ps price) =
     (greenCount (aggregate ps price) + recomGreenCount (aggregate ps price)) * 1
     + (blueCount (aggregate ps price) + recomBlueCount (aggregate ps price)) * 5
     + (purpleCount (aggregate ps price) + recomPurpleCount (aggregate ps price)) * 25
     + (goldenCount (aggregate ps price) + recomGoldenCount (aggregate ps price)) * 125
   \<and> greenCount (aggregate ps price) + recomGreenCount (aggregate ps price)
       = of_nat (length (filter (\<lambda>p. type p = GREEN) ps))
   \<and> blueCount (aggregate ps price) + recomBlueCount (aggregate ps price)
       = of_nat (length (filter (\<lambda>p. type p = BLUE) ps))
   \<and> purpleCount (aggregate ps price) + recomPurpleCount (aggregate ps price)
       = of_nat (length (filter (\<lambda>p. type p = PURPLE) ps))
   \<and> goldenCount (aggregate ps price) + recomGoldenCount (aggregate ps price)
       = of_nat (length (filter (\<lambda>p. type p = GOLDEN) ps))
   \<and> totalGreenEquivalent (aggregate ps price)
       = totalGreenEquivalent (aggregate (filter (\<lambda>p. type p \<noteq> UNKNOWN) ps) price)
   \<and> (125 * length ps < 2 ^ 31 \<longrightarrow>
        sint (totalGreenEquivalent (aggregate ps price)) =
          1 * int (length (filter (\<lambda>p. type p = GREEN) ps))
          + 5 * int (length (filter (\<lambda>p. type p = BLUE) ps))
          + 25 * int (length (filter (\<lambda>p. type p = PURPLE) ps))
          + 125 * int (length (filter (\<lambda>p. type p = GOLDEN) ps)))"
proof -
  let ?S = "aggregate ps price"
  let ?n = "\<lambda>t. length (filter (\<lambda>p. type p = t) ps)"
  have counts:
    "greenCount ?S + recomGreenCount ?S = of_nat (?n GREEN)"
    "blueCount ?S + recomBlueCount ?S = of_nat (?n BLUE)"
    "purpleCount ?S + recomPurpleCount ?S = of_nat (?n PURPLE)"
    "goldenCount ?S + recomGoldenCount ?S = of_nat (?n GOLDEN)"
    by (simp_all add: aggregate_fields count_all_fields tally_split)
  have dot: "totalGreenEquivalent ?S =
      (greenCount ?S + recomGreenCount ?S) * 1 + (blueCount ?S + recomBlueCount ?S) * 5
      + (purpleCount ?S + recomPurpleCount ?S) * 25
      + (goldenCount ?S + recomGoldenCount ?S) * 125"
    by (simp add: aggregate_fields green_equivalent_def Let_def algebra_simps)
  have unknown: "totalGreenEquivalent ?S =
      totalGreenEquivalent (aggregate (filter (\<lambda>p. type p \<noteq> UNKNOWN) ps) price)"
    by (simp add: aggregate_fields green_equivalent_known)
  have small: "sint (totalGreenEquivalent ?S) =
      1 * int (?n GREEN) + 5 * int (?n BLUE) + 25 * int (?n PURPLE) + 125 * int (?n GOLDEN)"
    if "125 * length ps < 2 ^ 31"
  proof -
    let ?N = "?n GREEN + 5 * ?n BLUE + 25 * ?n PURPLE + 125 * ?n GOLDEN"
    have "?N \<le> 125 * length ps" using tier_counts_le[of ps] by linarith
    with that have "?N < 2 ^ 31" by linarith
    from sint_of_nat_c_int[OF this] show ?thesis
      by (simp add: aggregate_fields green_equivalent_tally)
  qed
  from counts dot unknown small show ?thesis by blast
qed

theorem C3_witness:
  "125 * length [\<lparr>type = GREEN, recombobulated = False, cost = 100\<rparr>,
                 \<lparr>type = BLUE, recombobulated = True, cost = 500\<rparr>,
                 \<lparr>type = UNKNOWN, recombobulated = False, cost = 7\<rparr>] < (2::nat) ^ 31
   \<and> sint (totalGreenEquivalent
     (aggregate [\<lparr>type = GREEN, recombobulated = False, cost = 100\<rparr>,
                 \<lparr>type = BLUE, recombobulated = True, cost = 500\<rparr>,
                 \<lparr>type = UNKNOWN, recombobulated = False, cost = 7\<rparr>] 50)) = 6"
proof -
  let ?ps = "[\<lparr>type = GREEN, recombobulated = False, cost = 100\<rparr>,
              \<lparr>type = BLUE, recombobulated = True, cost = 500\<rparr>,
              \<lparr>type = UNKNOWN, recombobulated = False, cost = 7\<rparr>]"
  have small: "125 * length ?ps < (2::nat) ^ 31" by simp
  from C3_tier_equivalent_total[of ?ps 50]
  have "125 * length ?ps < 2 ^ 31 \<longrightarrow>
        sint (totalGreenEquivalent (aggregate ?ps 50)) =
          1 * int (length (filter (\<lambda>p. type p = GREEN) ?ps))
          + 5 * int (length (filter (\<lambda>p. type p = BLUE) ?ps))
          + 25 * int (length (filter (\<lambda>p. type p = PURPLE) ?ps))
          + 125 * int (length (filter (\<lambda>p. type p = GOLDEN) ?ps))"
    by (elim conjE)
  with small show ?thesis by simp
qed


text \<open>
  Claim C4. A purchase of type \<open>UNKNOWN\<close> (the classification of every colour token
  outside the four names) only adds its cost to \<open>totalCost\<close>: the loop body changes no
  other accumulator, and a summary with the purchase inserted anywhere differs from the
  summary without it in \<open>totalCost\<close> only, so none of the eight counters and nothing of
  \<open>totalGreenEquivalent\<close> comes from it.
\<close>

theorem C4_unknown_only_cost:
  assumes "type p = UNKNOWN"
  shows "count_purchase c p = c\<lparr>totalCost := totalCost c + cost p\<rparr>
   \<and> totalCost (aggregate (xs @ p # ys) price) = totalCost (aggregate (xs @ ys) price) + cost p
   \<and> greenCount (aggregate (xs @ p # ys) price) = greenCount (aggregate (xs @ ys) price)
   \<and> recomGreenCount (aggregate (xs @ p # ys) price) = recomGreenCount (aggregate (xs @ ys) price)
   \<and> blueCount (aggregate (xs @ p # ys) price) = blueCount (aggregate (xs @ ys) price)
   \<and> recomBlueCount (aggregate (xs @ p # ys) price) = recomBlueCount (aggregate (xs @ ys) price)
   \<and> purpleCount (aggregate (xs @ p # ys) price) = purpleCount (aggregate (xs @ ys) price)
   \<and> recomPurpleCount (aggregate (xs @ p # ys) price) = recomPurpleCount (aggregate (xs @ ys) price)
   \<and> goldenCount (aggregate (xs @ p # ys) price) = goldenCount (aggregate (xs @ ys) price)
   \<and> recomGoldenCount (aggregate (xs @ p # ys) price) = recomGoldenCount (aggregate (xs @ ys) price)
   \<and> totalGreenEquivalent (aggregate (xs @ p # ys) price)
       = totalGreenEquivalent (aggregate (xs @ ys) price)"
proof -
  have step: "count_purchase c p = c\<lparr>totalCost := totalCost c + cost p\<rparr>"
    using assms by (simp add: count_purchase_def Let_def)
  have total: "totalCost (aggregate (xs @ p # ys) price)
      = totalCost (aggregate (xs @ ys) price) + cost p"
    by (simp add: aggregate_fields count_all_fields)
  have counters:
    "greenCount (aggregate (xs @ p # ys) price) = greenCount (aggregate (xs @ ys) price)"
    "recomGreenCount (aggregate (xs @ p # ys) price) = recomGreenCount (aggregate (xs @ ys) price)"
    "blueCount (aggregate (xs @ p # ys) price) = blueCount (aggregate (xs @ ys) price)"
    "recomBlueCount (aggregate (xs @ p # ys) price) = recomBlueCount (aggregate (xs @ ys) price)"
    "purpleCount (aggregate (xs @ p # ys) price) = purpleCount (aggregate (xs @ ys) price)"
    "recomPurpleCount (aggregate (xs @ p # ys) price) = recomPurpleCount (aggregate (xs @ ys) price)"
    "goldenCount (aggregate (xs @ p # ys) price) = goldenCount (aggregate (xs @ ys) price)"
    "recomGoldenCount (aggregate (xs @ p # ys) price) = recomGoldenCount (aggregate (xs @ ys) price)"
    using assms by (simp_all add: aggregate_fields count_all_fields tally_insert_unknown)
  have "count_all (xs @ p # ys) = (count_all (xs @ ys))\<lparr>totalCost := totalCost (count_all (xs @ ys)) + cost p\<rparr>"
    using assms by (simp add: count_all_fields tally_insert_unknown)
  then have tet: "totalGreenEquivalent (aggregate (xs @ p # ys) price)
      = totalGreenEquivalent (aggregate (xs @ ys) price)"
    by (simp add: aggregate_fields green_equivalent_def)
  from step total counters tet show ?thesis by blast
qed

theorem C4_witness:
  "type \<lparr>type = UNKNOWN, recombobulated = False, cost = 7\<rparr> = UNKNOWN
   \<and> totalCost (aggregate ([\<lparr>type = GREEN, recombobulated = False, cost = 100\<rparr>]
        @ \<lparr>type = UNKNOWN, recombobulated = False, cost = 7\<rparr> # []) 50)
     = totalCost (aggregate ([\<lparr>type = GREEN, recombobulated = False, cost = 100\<rparr>] @ []) 50) + 7
   \<and> totalGreenEquivalent (aggregate ([\<lparr>type = GREEN, recombobulated = False, cost = 100\<rparr>]
        @ \<lparr>type = UNKNOWN, recombobulated = False, cost = 7\<rparr> # []) 50)
     = totalGreenEquivalent (aggregate ([\<lparr>type = GREEN, recombobulated = False, cost = 100\<rparr>] @ []) 50)"
  using C4_unknown_only_cost[of "\<lparr>type = UNKNOWN, recombobulated = False, cost = 7\<rparr>"
      counters0 "[\<lparr>type = GREEN, recombobulated = False, cost = 100\<rparr>]" "[]" 50]
  by simp

text \<open>
  Claim C5. For a purchase list as classification produces it (a recombobulated purchase
  has a known type) of fewer than \<open>2^31\<close> entries, and every price, negative or not:
  \<open>adjustedCost\<close> is \<open>totalCost\<close> minus the number of recombobulated purchases times the
  price, in 64-bit arithmetic, and as integers whenever that difference is a
  \<open>long long\<close>. Nothing clamps the result: a negative value is returned as it is. The
  purchases that \<open>main\<close> collects from the log files are such a list, so the summary
  of every run over fewer than \<open>2^31\<close> purchases satisfies the equation.
\<close>

theorem C5_adjusted_cost:
  assumes "\<forall>p\<in>set ps. recombobulated p \<longrightarrow> type p \<noteq> UNKNOWN"
    and "length ps < 2 ^ 31"
  shows "adjustedCost (aggregate ps price) =
           totalCost (aggregate ps price) - of_nat (length (filter recombobulated ps)) * price
   \<and> (- (2 ^ 63) \<le> sint (totalCost (aggregate ps price))
                      - int (length (filter recombobulated ps)) * sint price
      \<and> sint (totalCost (aggregate ps price))
                      - int (length (filter recombobulated ps)) * sint price < 2 ^ 63
      \<longrightarrow> sint (adjustedCost (aggregate ps price)) =
            sint (totalCost (aggregate ps price))
              - int (length (filter recombobulated ps)) * sint price)
   \<and> (length (all_purchases contents) < 2 ^ 31 \<longrightarrow>
        adjustedCost (main_summary contents price) =
          totalCost (main_summary contents price)
            - of_nat (length (filter recombobulated (all_purchases contents))) * price)"
proof -
  have eq: "adjustedCost (aggregate qs price) =
              totalCost (aggregate qs price) - of_nat (length (filter recombobulated qs)) * price"
    if "\<forall>p\<in>set qs. recombobulated p \<longrightarrow> type p \<noteq> UNKNOWN" "length qs < 2 ^ 31" for qs
    using adjusted_cost_tally[OF that(2), of price] recom_tally_known[OF that(1)]
    by (simp add: aggregate_fields count_all_fields)
  let ?S = "aggregate ps price"
  let ?n = "length (filter recombobulated ps)"
  note eq1 = eq[OF assms]
  have "adjustedCost ?S = word_of_int (sint (totalCost ?S) - int ?n * sint price)"
    unfolding eq1 by simp
  then have "sint (adjustedCost ?S) = sint (totalCost ?S) - int ?n * sint price"
    if "- (2 ^ 63) \<le> sint (totalCost ?S) - int ?n * sint price"
       "sint (totalCost ?S) - int ?n * sint price < 2 ^ 63"
    using sint_of_int_long_long[OF that] by simp
  moreover have "adjustedCost (main_summary contents price) =
          totalCost (main_summary contents price)
            - of_nat (length (filter recombobulated (all_purchases contents))) * price"
    if "length (all_purchases contents) < 2 ^ 31"
    unfolding main_summary_def
    by (rule eq[OF all_purchases_recombobulated_known that])
  ultimately show ?thesis using eq1 by blast
qed

theorem C5_witness:
  "length [\<lparr>type = GREEN, recombobulated = True, cost = 3\<rparr>,
             \<lparr>type = UNKNOWN, recombobulated = False, cost = 0\<rparr>] < (2::nat) ^ 31
   \<and> adjustedCost (aggregate [\<lparr>type = GREEN, recombobulated = True, cost = 3\<rparr>,
             \<lparr>type = UNKNOWN, recombobulated = False, cost = 0\<rparr>] 10) = 3 - 1 * 10
   \<and> sint (adjustedCost (aggregate [\<lparr>type = GREEN, recombobulated = True, cost = 3\<rparr>,
             \<lparr>type = UNKNOWN, recombobulated = False, cost = 0\<rparr>] 10)) = - 7"
proof -
  let ?ps = "[\<lparr>type = GREEN, recombobulated = True, cost = 3\<rparr>,
              \<lparr>type = UNKNOWN, recombobulated = False, cost = 0\<rparr>]"
  have wf: "\<forall>p\<in>set ?ps. recombobulated p \<longrightarrow> type p \<noteq> UNKNOWN" by simp
  have len: "length ?ps < (2::nat) ^ 31" by simp
  have total: "totalCost (aggregate ?ps 10) = 3"
    by (simp add: aggregate_fields count_all_fields)
  from C5_adjusted_cost[OF wf len, of 10]
  have "adjustedCost (aggregate ?ps 10) = 3 - 1 * 10"
    unfolding total by simp
  with wf len show ?thesis by simp
qed

text \<open>
  Claim C6. When \<open>std::stoll\<close> throws on the stripped cost token, the purchase has cost
  0 and one line naming the token and the exception is written to \<open>std::cerr\<close>; the
  loop goes on, so every raw match yields a purchase. The cost group of the pattern holds
  digits and commas only, so a token that parses has no sign, and every purchase that
  \<open>ExtractJerryPurchases\<close> returns, for any text, has a cost that is not negative.
\<close>

theorem C6_unparsable_cost:
  "(stoll (erase_0_1 (remove_commas costTok)) = Inl e \<longrightarrow>
      classify (rarity, color, costTok) =
        (\<lparr>type = jerry_type color,
          recombobulated = is_recombobulated (jerry_type color) rarity,
          cost = 0\<rparr>,
         [\<lparr>row = erase_0_1 (remove_commas costTok), what = e\<rparr>]))
   \<and> length (ExtractJerryPurchases logContent) = length (raw_matches logContent)
   \<and> (\<forall>p\<in>set (ExtractJerryPurchases logContent). 0 \<le> sint (cost p))
   \<and> (\<forall>p\<in>set (all_purchases contents). 0 \<le> sint (cost p))"
proof -
  have 1: "classify (rarity, color, costTok) =
        (\<lparr>type = jerry_type color,
          recombobulated = is_recombobulated (jerry_type color) rarity,
          cost = 0\<rparr>,
         [\<lparr>row = erase_0_1 (remove_commas costTok), what = e\<rparr>])"
    if "stoll (erase_0_1 (remove_commas costTok)) = Inl e"
    using that by (simp add: classify_def parse_cost_def Let_def)
  have 2: "length (ExtractJerryPurchases logContent) = length (raw_matches logContent)"
    by (simp add: ExtractJerryPurchases_def)
  from 1 2 show ?thesis
    by (intro conjI impI ballI)
       (simp_all add: ExtractJerryPurchases_cost_nonneg all_purchases_cost_nonneg)
qed

theorem C6_witness:
  "stoll (erase_0_1 (remove_commas ''6'')) = Inl invalid_argument
   \<and> classify (''9'', ''Green'', ''6'') =
        (\<lparr>type = GREEN, recombobulated = True, cost = 0\<rparr>,
         [\<lparr>row = [], what = invalid_argument\<rparr>])
   \<and> ExtractJerryPurchases
        (''You purchased x9Green Jerry Talisman yfor z6 coins'' @ [CHR 0x0A]
         @ ''You purchased x9Blue Jerry Talisman yfor z6500 coins'')
      = [\<lparr>type = GREEN, recombobulated = True, cost = 0\<rparr>,
         \<lparr>type = BLUE, recombobulated = False, cost = 500\<rparr>]
   \<and> ExtractJerryPurchases_cerr
        (''You purchased x9Green Jerry Talisman yfor z6 coins'' @ [CHR 0x0A]
         @ ''You purchased x9Blue Jerry Talisman yfor z6500 coins'')
      = [\<lparr>row = [], what = invalid_argument\<rparr>]"
proof -
  have g: "jerry_type ''Green'' = GREEN" "is_recombobulated GREEN ''9''"
    by (simp_all add: jerry_type_def is_recombobulated_def)
  have 1: "stoll (erase_0_1 (remove_commas ''6'')) = Inl invalid_argument" by code_simp
  note t = C6_unparsable_cost[of "''6''" invalid_argument "''9''" "''Green''" "[]" "[]"]
  have "stoll (erase_0_1 (remove_commas ''6'')) = Inl invalid_argument \<longrightarrow>
      classify (''9'', ''Green'', ''6'') =
        (\<lparr>type = jerry_type ''Green'',
          recombobulated = is_recombobulated (jerry_type ''Green'') ''9'',
          cost = 0\<rparr>,
         [\<lparr>row = erase_0_1 (remove_commas ''6''), what = invalid_argument\<rparr>])"
    using t by (elim conjE)
  with 1 have 2: "classify (''9'', ''Green'', ''6'') =
        (\<lparr>type = GREEN, recombobulated = True, cost = 0\<rparr>,
         [\<lparr>row = [], what = invalid_argument\<rparr>])"
    using g by (simp add: erase_0_1_def remove_commas_def)
  have 3: "ExtractJerryPurchases
        (''You purchased x9Green Jerry Talisman yfor z6 coins'' @ [CHR 0x0A]
         @ ''You purchased x9Blue Jerry Talisman yfor z6500 coins'')
      = [\<lparr>type = GREEN, recombobulated = True, cost = 0\<rparr>,
         \<lparr>type = BLUE, recombobulated = False, cost = 500\<rparr>]"
    by code_simp
  have 4: "ExtractJerryPurchases_cerr
        (''You purchased x9Green Jerry Talisman yfor z6 coins'' @ [CHR 0x0A]
         @ ''You purchased x9Blue Jerry Talisman yfor z6500 coins'')
      = [\<lparr>row = [], what = invalid_argument\<rparr>]"
    by code_simp
  from 1 2 3 4 show ?thesis by (intro conjI)
qed

text \<open>
  Claim C7, as amended. For every text the extraction reports the match at the first
  position that has one, then goes on after the end of that match until no position is
  left with a match. So each reported match is the matcher's match at its position; the
  matches do not overlap and come in the order of the text, and the raw matches and
  purchases keep that order; every position at which the pattern matches lies inside a
  reported match, so nothing is skipped. A match never crosses a line terminator (LF or
  CR): the raw matches of a text are those before the terminator followed by those after
  it. A line yields exactly one raw match if the pattern matches somewhere on it, and none
  otherwise.

  The claim as stated, that every occurrence of the purchase shape yields its own raw
  match, fails for two occurrences on one line: the greedy \<open>.+\<close> after "You purchased"
  runs to the last occurrence, and one match is reported for both.
\<close>

theorem C7_left_to_right_scan:
  "(\<forall>m\<in>set (all_matches 0 text).
       match_at text (position m) = Some (subs m, position m + length (subs m ! 0)))
   \<and> sorted_wrt (\<lambda>a b. position a + length (subs a ! 0) \<le> position b) (all_matches 0 text)
   \<and> (\<forall>j\<le>length text. match_at text j \<noteq> None \<longrightarrow>
         (\<exists>m\<in>set (all_matches 0 text).
            position m \<le> j \<and> j < position m + length (subs m ! 0)))
   \<and> raw_matches text
       = map (\<lambda>m. (subs m ! 1, subs m ! 2, subs m ! 4)) (all_matches 0 text)
   \<and> (x = CHR 0x0A \<or> x = CHR 0x0D \<longrightarrow>
         raw_matches (s @ x # t) = raw_matches s @ raw_matches t)
   \<and> ((\<forall>x\<in>set line. x \<noteq> CHR 0x0A \<and> x \<noteq> CHR 0x0D) \<longrightarrow>
         length (raw_matches line)
           = (if \<exists>j\<le>length line. match_at line j \<noteq> None then 1 else 0))"
proof -
  note scan = all_matches_scan[OF list.size(3), of "text", unfolded append_Nil]
  have 1: "\<forall>m\<in>set (all_matches 0 text).
       match_at text (position m) = Some (subs m, position m + length (subs m ! 0))"
    using scan by blast
  have 2: "sorted_wrt (\<lambda>a b. position a + length (subs a ! 0) \<le> position b)
      (all_matches 0 text)"
    using scan by blast
  have 3: "\<forall>j\<le>length text. match_at text j \<noteq> None \<longrightarrow>
         (\<exists>m\<in>set (all_matches 0 text).
            position m \<le> j \<and> j < position m + length (subs m ! 0))"
    using scan by simp
  have 5: "raw_matches (s @ x # t) = raw_matches s @ raw_matches t"
    if "x = CHR 0x0A \<or> x = CHR 0x0D"
    by (rule raw_matches_barrier) (rule rejects_line_terminator[OF that])
  have 6: "length (raw_matches line)
           = (if \<exists>j\<le>length line. match_at line j \<noteq> None then 1 else 0)"
    if line: "\<forall>x\<in>set line. x \<noteq> CHR 0x0A \<and> x \<noteq> CHR 0x0D"
  proof -
    note sl = all_matches_scan[OF list.size(3), of line, unfolded append_Nil]
    from line have "\<forall>x\<in>set line. atom_ok AnyChar x" by simp
    from one_match_per_line[OF this, of 0] have le: "length (all_matches 0 line) \<le> 1" .
    show ?thesis
    proof (cases "\<exists>j\<le>length line. match_at line j \<noteq> None")
      case True
      with sl have "all_matches 0 line \<noteq> []" by fastforce
      with le have "length (all_matches 0 line) = 1"
        by (cases "all_matches 0 line") simp_all
      with True show ?thesis by (simp add: raw_matches_all)
    next
      case False
      have "all_matches 0 line = []"
      proof (rule ccontr)
        assume "all_matches 0 line \<noteq> []"
        then obtain m where m: "m \<in> set (all_matches 0 line)"
          by (cases "all_matches 0 line") auto
        with sl have "match_at line (position m) \<noteq> None"
          "position m \<le> length line" by auto
        with False show False by blast
      qed
      with False show ?thesis by (simp add: raw_matches_all)
    qed
  qed
  from 1 2 3 raw_matches_all[of "text"] 5 6 show ?thesis by blast
qed

theorem C7_witness:
  "raw_matches (''You purchased x9Green Jerry Talisman yfor z612,500 coins''
       @ CHR 0x0A # ''You purchased x5Blue Jerry Talisman yfor z61,000 coins'')
     = [(''9'', ''Green'', ''612,500''), (''5'', ''Blue'', ''61,000'')]
   \<and> all_matches 0 (''You purchased x9Green Jerry Talisman yfor z612,500 coins''
       @ CHR 0x0A # ''You purchased x5Blue Jerry Talisman yfor z61,000 coins'')
     = [\<lparr>position = 0, subs = [''You purchased x9Green Jerry Talisman yfor z612,500 coins'',
           ''9'', ''Green'', ''Talisman'', ''612,500'']\<rparr>,
        \<lparr>position = 57, subs = [''You purchased x5Blue Jerry Talisman yfor z61,000 coins'',
           ''5'', ''Blue'', ''Talisman'', ''61,000'']\<rparr>]"
proof -
  let ?l1 = "''You purchased x9Green Jerry Talisman yfor z612,500 coins''"
  let ?l2 = "''You purchased x5Blue Jerry Talisman yfor z61,000 coins''"
  have a: "raw_matches ?l1 = [(''9'', ''Green'', ''612,500'')]" by code_simp
  have b: "raw_matches ?l2 = [(''5'', ''Blue'', ''61,000'')]" by code_simp
  have nl: "CHR 0x0A = CHR 0x0A \<or> CHR 0x0A = CHR 0x0D" by simp
  note t = C7_left_to_right_scan[of "?l1 @ CHR 0x0A # ?l2" "CHR 0x0A" ?l1 ?l2 ?l1]
  have "CHR 0x0A = CHR 0x0A \<or> CHR 0x0A = CHR 0x0D \<longrightarrow>
      raw_matches (?l1 @ CHR 0x0A # ?l2) = raw_matches ?l1 @ raw_matches ?l2"
    using t by (elim conjE)
  with nl have 1: "raw_matches (?l1 @ CHR 0x0A # ?l2)
      = [(''9'', ''Green'', ''612,500''), (''5'', ''Blue'', ''61,000'')]"
    unfolding a b by simp
  have 2: "all_matches 0 (?l1 @ CHR 0x0A # ?l2)
     = [\<lparr>position = 0, subs = [?l1, ''9'', ''Green'', ''Talisman'', ''612,500'']\<rparr>,
        \<lparr>position = 57, subs = [?l2, ''5'', ''Blue'', ''Talisman'', ''61,000'']\<rparr>]"
    by code_simp
  from 1 2 show ?thesis by (intro conjI)
qed

theorem C7_counterexample:
  "raw_matches ''You purchased x9Green Jerry Talisman yfor z612,500 coins''
     = [(''9'', ''Green'', ''612,500'')]
   \<and> raw_matches ''You purchased x5Blue Jerry Talisman yfor z61,000 coins''
     = [(''5'', ''Blue'', ''61,000'')]
   \<and> raw_matches (''You purchased x9Green Jerry Talisman yfor z612,500 coins'' @ '' ''
        @ ''You purchased x5Blue Jerry Talisman yfor z61,000 coins'')
     = [(''5'', ''Blue'', ''61,000'')]"
  by code_simp

text \<open>
  Claim C8. For purchase lists \<open>A\<close> and \<open>B\<close> with fewer than \<open>2^31\<close> entries together and
  every price, the summary of \<open>A @ B\<close> has \<open>totalCost\<close>, the eight counters,
  \<open>totalGreenEquivalent\<close> and \<open>adjustedCost\<close> equal to the sums of those fields of the
  summaries of \<open>A\<close> and of \<open>B\<close>; \<open>avgPricePerGreen\<close> is not a sum, it is the average
  computed again from the summed \<open>adjustedCost\<close> and \<open>totalGreenEquivalent\<close>.
\<close>

theorem C8_aggregate_append:
  assumes "length A + length B < 2 ^ 31"
  shows "totalCost (aggregate (A @ B) price)
           = totalCost (aggregate A price) + totalCost (aggregate B price)
   \<and> greenCount (aggregate (A @ B) price)
           = greenCount (aggregate A price) + greenCount (aggregate B price)
   \<and> recomGreenCount (aggregate (A @ B) price)
           = recomGreenCount (aggregate A price) + recomGreenCount (aggregate B price)
   \<and> blueCount (aggregate (A @ B) price)
           = blueCount (aggregate A price) + blueCount (aggregate B price)
   \<and> recomBlueCount (aggregate (A @ B) price)
           = recomBlueCount (aggregate A price) + recomBlueCount (aggregate B price)
   \<and> purpleCount (aggregate (A @ B) price)
           = purpleCount (aggregate A price) + purpleCount (aggregate B price)
   \<and> recomPurpleCount (aggregate (A @ B) price)
           = recomPurpleCount (aggregate A price) + recomPurpleCount (aggregate B price)
   \<and> goldenCount (aggregate (A @ B) price)
           = goldenCount (aggregate A price) + goldenCount (aggregate B price)
   \<and> recomGoldenCount (aggregate (A @ B) price)
           = recomGoldenCount (aggregate A price) + recomGoldenCount (aggregate B price)
   \<and> totalGreenEquivalent (aggregate (A @ B) price)
           = totalGreenEquivalent (aggregate A price) + totalGreenEquivalent (aggregate B price)
   \<and> adjustedCost (aggregate (A @ B) price)
           = adjustedCost (aggregate A price) + adjustedCost (aggregate B price)
   \<and> avgPricePerGreen (aggregate (A @ B) price)
           = avg_price_per_green
               (adjustedCost (aggregate A price) + adjustedCost (aggregate B price))
               (totalGreenEquivalent (aggregate A price) + totalGreenEquivalent (aggregate B price))"
  using adjusted_cost_append[OF assms, of price]
  by (simp add: aggregate_fields count_all_fields tally_append green_equivalent_append)

theorem C8_witness:
  "length [\<lparr>type = GREEN, recombobulated = False, cost = 100\<rparr>]
     + length [\<lparr>type = BLUE, recombobulated = True, cost = 550\<rparr>] < (2::nat) ^ 31
   \<and> adjustedCost (aggregate ([\<lparr>type = GREEN, recombobulated = False, cost = 100\<rparr>]
        @ [\<lparr>type = BLUE, recombobulated = True, cost = 550\<rparr>]) 50)
      = adjustedCost (aggregate [\<lparr>type = GREEN, recombobulated = False, cost = 100\<rparr>] 50)
        + adjustedCost (aggregate [\<lparr>type = BLUE, recombobulated = True, cost = 550\<rparr>] 50)
   \<and> avgPricePerGreen (aggregate [\<lparr>type = GREEN, recombobulated = False, cost = 100\<rparr>] 50)
        = Some 100
   \<and> avgPricePerGreen (aggregate [\<lparr>type = BLUE, recombobulated = True, cost = 550\<rparr>] 50)
        = Some 100
   \<and> avgPricePerGreen (aggregate ([\<lparr>type = GREEN, recombobulated = False, cost = 100\<rparr>]
        @ [\<lparr>type = BLUE, recombobulated = True, cost = 550\<rparr>]) 50) = Some 100"
proof -
  let ?A = "[\<lparr>type = GREEN, recombobulated = False, cost = 100\<rparr>]"
  let ?B = "[\<lparr>type = BLUE, recombobulated = True, cost = 550\<rparr>]"
  have len: "length ?A + length ?B < (2::nat) ^ 31" by simp
  have a: "avgPricePerGreen (aggregate ?A 50) = Some 100" by code_simp
  have b: "avgPricePerGreen (aggregate ?B 50) = Some 100" by code_simp
  have ab: "avgPricePerGreen (aggregate (?A @ ?B) 50) = Some 100" by code_simp
  from C8_aggregate_append[OF len, of 50]
  have "adjustedCost (aggregate (?A @ ?B) 50)
      = adjustedCost (aggregate ?A 50) + adjustedCost (aggregate ?B 50)"
    by (elim conjE)
  with len a b ab show ?thesis by simp
qed

text \<open>
  Claim C9. Classification of a raw match always yields a purchase, with one type and one
  flag. The flag is the membership of the pair (type, rarity token) in the table
  (GREEN, "9"), (BLUE, "5"), (PURPLE, "6"), (GOLDEN, "d"): every known type has exactly one
  rarity token that sets the flag, every other pair, and every pair with the type
  \<open>UNKNOWN\<close>, leaves it unset. (The only call that throws, \<open>std::stoll\<close>, is caught
  inside, so the result is a plain value.)
\<close>

theorem C9_classification:
  "type (fst (classify (rarity, color, costTok))) = jerry_type color
   \<and> recombobulated (fst (classify (rarity, color, costTok)))
       = ((jerry_type color, rarity)
            \<in> {(GREEN, ''9''), (BLUE, ''5''), (PURPLE, ''6''), (GOLDEN, ''d'')})
   \<and> (jerry_type color = UNKNOWN \<longrightarrow> \<not> recombobulated (fst (classify (rarity, color, costTok))))
   \<and> (\<forall>t. t \<noteq> UNKNOWN \<longrightarrow> (\<exists>!r. is_recombobulated t r))
   \<and> (\<forall>r. \<not> is_recombobulated UNKNOWN r)"
proof -
  have 1: "is_recombobulated t r
      = ((t, r) \<in> {(GREEN, ''9''), (BLUE, ''5''), (PURPLE, ''6''), (GOLDEN, ''d'')})" for t r
    unfolding is_recombobulated_def by (simp only: insert_iff empty_iff prod.inject) blast
  have 2: "\<exists>!r. is_recombobulated t r" if "t \<noteq> UNKNOWN" for t
    using that unfolding is_recombobulated_def by (cases t) simp_all
  have 3: "\<not> is_recombobulated UNKNOWN r" for r
    unfolding is_recombobulated_def by simp
  show ?thesis
    unfolding classify_type classify_recombobulated using 1 2 3 by (intro conjI allI impI) simp_all
qed

theorem C9_witness:
  "recombobulated (fst (classify (''9'', ''Green'', ''612,500'')))
   \<and> \<not> recombobulated (fst (classify (''5'', ''Green'', ''612,500'')))
   \<and> \<not> recombobulated (fst (classify (''9'', ''Red'', ''612,500'')))
   \<and> type (fst (classify (''9'', ''Red'', ''612,500''))) = UNKNOWN"
proof -
  have g: "jerry_type ''Green'' = GREEN" and r: "jerry_type ''Red'' = UNKNOWN"
    by (simp_all add: jerry_type_def)
  from C9_classification[of "''9''" "''Green''" "''612,500''"]
  have 1: "recombobulated (fst (classify (''9'', ''Green'', ''612,500'')))"
    unfolding g by simp
  from C9_classification[of "''5''" "''Green''" "''612,500''"]
  have 2: "\<not> recombobulated (fst (classify (''5'', ''Green'', ''612,500'')))"
    unfolding g by simp
  from C9_classification[of "''9''" "''Red''" "''612,500''"]
  have 3: "\<not> recombobulated (fst (classify (''9'', ''Red'', ''612,500'')))"
    and 4: "type (fst (classify (''9'', ''Red'', ''612,500''))) = UNKNOWN"
    unfolding r by simp_all
  from 1 2 3 4 show ?thesis by (intro conjI)
qed

text \<open>
  Claim C10. For every text, the colour of every raw match is one of the four
  alternatives of the pattern, which spells the third one "PurPle"; the classifier knows
  "Purple" only and maps "PurPle" to \<open>UNKNOWN\<close>. So no extracted purchase has the type
  \<open>PURPLE\<close>, and both purple counters are 0 in the summary of any files.
\<close>

theorem C10_never_purple:
  "(\<forall>m\<in>set (raw_matches logContent).
       fst (snd m) = ''Green'' \<or> fst (snd m) = ''Blue'' \<or> fst (snd m) = ''PurPle''
       \<or> fst (snd m) = ''Golden'')
   \<and> jerry_type ''PurPle'' = UNKNOWN
   \<and> (\<forall>p\<in>set (ExtractJerryPurchases logContent). type p \<noteq> PURPLE)
   \<and> purpleCount (main_summary contents price) = 0
   \<and> recomPurpleCount (main_summary contents price) = 0"
proof -
  have 1: "fst (snd m) = ''Green'' \<or> fst (snd m) = ''Blue'' \<or> fst (snd m) = ''PurPle''
       \<or> fst (snd m) = ''Golden''" if "m \<in> set (raw_matches logContent)" for m
  proof -
    obtain rarity color costTok where m: "m = (rarity, color, costTok)" by (cases m)
    from raw_matches_shape[OF that[unfolded m]] show ?thesis unfolding m by simp
  qed
  have 2: "tally PURPLE e (all_purchases contents) = 0" for e
    by (rule tally_none) (rule all_purchases_not_purple)
  have 3: "purpleCount (main_summary contents price) = 0"
    "recomPurpleCount (main_summary contents price) = 0"
    unfolding main_summary_def by (simp_all add: aggregate_fields count_all_fields 2)
  from 1 3 show ?thesis
    by (intro conjI ballI) (simp_all add: jerry_type_pattern_colors ExtractJerryPurchases_not_purple)
qed

theorem C10_witness:
  "ExtractJerryPurchases ''You purchased x6PurPle Jerry Talisman yfor z6125,000 coins''
     = [\<lparr>type = UNKNOWN, recombobulated = False, cost = 125000\<rparr>]
   \<and> purpleCount
       (main_summary [''You purchased x6PurPle Jerry Talisman yfor z6125,000 coins''] 0) = 0
   \<and> recomPurpleCount
       (main_summary [''You purchased x6PurPle Jerry Talisman yfor z6125,000 coins''] 0) = 0"
proof -
  have 1: "ExtractJerryPurchases ''You purchased x6PurPle Jerry Talisman yfor z6125,000 coins''
     = [\<lparr>type = UNKNOWN, recombobulated = False, cost = 125000\<rparr>]"
    by code_simp
  note t = C10_never_purple[of "''You purchased x6PurPle Jerry Talisman yfor z6125,000 coins''"
      "[''You purchased x6PurPle Jerry Talisman yfor z6125,000 coins'']" 0]
  have 2: "purpleCount
       (main_summary [''You purchased x6PurPle Jerry Talisman yfor z6125,000 coins''] 0) = 0"
    using t by (elim conjE)
  have 3: "recomPurpleCount
       (main_summary [''You purchased x6PurPle Jerry Talisman yfor z6125,000 coins''] 0) = 0"
    using t by (elim conjE)
  from 1 2 3 show ?thesis by (intro conjI)
qed

end
